theory Spec2Isabelle
  imports Complex_Main
begin

section \<open>JavaScript numbers and arrays\<close>

text \<open>
  The toolkit is TypeScript; every numeric value is a JavaScript \<open>number\<close>. The model
  keeps two kinds of number: \<open>NaN\<close>, and a finite value \<open>Num v\<close> with \<open>v\<close> an exact
  real. Rounding of IEEE doubles and the two infinities are outside the model: arithmetic
  on finite values is exact, and an operation whose JavaScript result is not finite
  (a division by zero, the square root of a negative value) yields \<open>NaN\<close> here. The
  integer arithmetic of the generator stays far below \<open>2 ^ 53\<close> for integer seeds, where
  doubles are exact.

  A parameter that may be omitted (\<open>undefined\<close>) or \<open>null\<close> is an \<open>option\<close>. An
  array is a list; a read outside its bounds is \<open>undefined\<close>, the value \<open>None\<close>.
\<close>

datatype number = NaN | Num real

datatype error = TypeError | SolverError

definition isNaN :: "number \<Rightarrow> bool" where
  "isNaN v = (case v of NaN \<Rightarrow> True | Num _ \<Rightarrow> False)"

text \<open>\<open>if (start)\<close>: a number is truthy unless it is \<open>0\<close> or \<open>NaN\<close>.\<close>

definition truthy :: "number \<Rightarrow> bool" where
  "truthy v = (case v of NaN \<Rightarrow> False | Num x \<Rightarrow> x \<noteq> 0)"

text \<open>\<open>a < b\<close> and \<open>a == b\<close> on numbers: false as soon as one side is \<open>NaN\<close>.\<close>

definition js_lt :: "number \<Rightarrow> number \<Rightarrow> bool" where
  "js_lt a b = (case a of NaN \<Rightarrow> False | Num x \<Rightarrow> (case b of NaN \<Rightarrow> False | Num y \<Rightarrow> x < y))"

definition js_eq :: "number \<Rightarrow> number \<Rightarrow> bool" where
  "js_eq a b = (case a of NaN \<Rightarrow> False | Num x \<Rightarrow> (case b of NaN \<Rightarrow> False | Num y \<Rightarrow> x = y))"

definition nadd :: "number \<Rightarrow> number \<Rightarrow> number" where
  "nadd a b = (case a of NaN \<Rightarrow> NaN | Num x \<Rightarrow> (case b of NaN \<Rightarrow> NaN | Num y \<Rightarrow> Num (x + y)))"

definition nsub :: "number \<Rightarrow> number \<Rightarrow> number" where
  "nsub a b = (case a of NaN \<Rightarrow> NaN | Num x \<Rightarrow> (case b of NaN \<Rightarrow> NaN | Num y \<Rightarrow> Num (x - y)))"

definition nmul :: "number \<Rightarrow> number \<Rightarrow> number" where
  "nmul a b = (case a of NaN \<Rightarrow> NaN | Num x \<Rightarrow> (case b of NaN \<Rightarrow> NaN | Num y \<Rightarrow> Num (x * y)))"

definition ndiv :: "number \<Rightarrow> number \<Rightarrow> number" where
  "ndiv a b =
     (case a of NaN \<Rightarrow> NaN
      | Num x \<Rightarrow> (case b of NaN \<Rightarrow> NaN | Num y \<Rightarrow> if y = 0 then NaN else Num (x / y)))"

definition nsqrt :: "number \<Rightarrow> number" where
  "nsqrt a = (case a of NaN \<Rightarrow> NaN | Num x \<Rightarrow> if x < 0 then NaN else Num (sqrt x))"

definition nsum :: "number list \<Rightarrow> number" where
  "nsum vs = foldl nadd (Num 0) vs"

text \<open>\<open>Math.round\<close> rounds to the nearest integer, a tie towards plus infinity.\<close>

definition Math_round :: "real \<Rightarrow> int" where
  "Math_round x = \<lfloor>x + 1 / 2\<rfloor>"

text \<open>
  The same functions with the sign of zero, which the index of the resampler depends on:
  \<open>Math.round\<close> returns \<open>-0\<close> for an argument below \<open>0\<close> and not below \<open>-0.5\<close>,
  \<open>Math.floor\<close> of an integral value is that value (\<open>-0\<close> stays \<open>-0\<close>), and
  \<open>Math.abs\<close> turns \<open>-0\<close> into \<open>0\<close>. \<open>value_of\<close> is the integer that \<open>-0\<close> and \<open>0\<close>
  share; it is also the property key of an array access, since \<open>a[-0]\<close> is \<open>a[0]\<close>.
\<close>

datatype js_integer = MinusZero | Whole int

definition value_of :: "js_integer \<Rightarrow> int" where
  "value_of i = (case i of MinusZero \<Rightarrow> 0 | Whole k \<Rightarrow> k)"

definition Math_round_signed :: "real \<Rightarrow> js_integer" where
  "Math_round_signed x = (if x < 0 \<and> - (1 / 2) \<le> x then MinusZero else Whole (Math_round x))"

definition Math_floor_signed :: "js_integer \<Rightarrow> js_integer" where
  "Math_floor_signed i = (case i of MinusZero \<Rightarrow> MinusZero | Whole k \<Rightarrow> Whole k)"

definition Math_abs_signed :: "js_integer \<Rightarrow> js_integer" where
  "Math_abs_signed i = (case i of MinusZero \<Rightarrow> Whole 0 | Whole k \<Rightarrow> Whole \<bar>k\<bar>)"

text \<open>
  \<open>data[index]\<close> where \<open>index\<close> is an integer or \<open>NaN\<close> (\<open>None\<close>): the element, or
  \<open>undefined\<close>.
\<close>

definition array_read :: "'a list \<Rightarrow> int option \<Rightarrow> 'a option" where
  "array_read data index =
     (case index of
        None \<Rightarrow> None
      | Some i \<Rightarrow> if 0 \<le> i \<and> i < int (length data) then Some (data ! nat i) else None)"

text \<open>The number of turns of \<open>for (i = 0; i < bound; ++i)\<close>.\<close>

definition loop_count :: "number \<Rightarrow> nat" where
  "loop_count bound = (case bound of NaN \<Rightarrow> 0 | Num v \<Rightarrow> nat \<lceil>v\<rceil>)"


section \<open>The deviate engine (src/libs/Deviates.ts)\<close>

definition IA :: real where "IA = 16807"
definition IM :: real where "IM = 2147483647"
definition AM :: real where "AM = 1 / IM"
definition IQ :: real where "IQ = 127773"
definition IR :: real where "IR = 2836"
definition NTAB :: nat where "NTAB = 32"
definition NDIV :: real where "NDIV = 1 + (IM - 1) / real NTAB"
definition EPS :: real where "EPS = 12 / 100000000"
definition RNMX :: real where "RNMX = 1 - EPS"

text \<open>
  The instance state. \<open>_iv\<close> is a JavaScript array: a partial map from keys to values,
  where a key below zero is an ordinary property that \<open>length = 0\<close> does not remove.
\<close>

record deviates =
  d_idum :: real
  d_iv :: "int \<Rightarrow> real option"
  d_normVal :: number
  d_u :: real
  d_s :: real
  d_a :: real
  d_b :: real
  d_a1 :: real
  d_a2 :: real

definition Deviates_new :: deviates where
  "Deviates_new =
     \<lparr>d_idum = 0, d_iv = (\<lambda>_. None), d_normVal = Num 0, d_u = 0, d_s = 1,
      d_a = 1, d_b = 1, d_a1 = 0, d_a2 = 0\<rparr>"

text \<open>
  One congruential step with Schrage's decomposition, as written twice in \<open>uniform\<close>:
  \<open>k = floor(idum / IQ); idum = IA * (idum - k * IQ) - IR * k; if (idum < 0) idum += IM\<close>.
\<close>

definition advance :: "real \<Rightarrow> real" where
  "advance x =
     (let k = \<lfloor>x / IQ\<rfloor>;
          y = IA * (x - of_int k * IQ) - IR * of_int k
      in if y < 0 then y + IM else y)"

text \<open>The body of the seeding loop \<open>for (j = NTAB + 7; j >= 0; j--)\<close> and the loop.\<close>

definition seed_body :: "nat \<Rightarrow> deviates \<Rightarrow> deviates" where
  "seed_body j d =
     (let x = advance (d_idum d)
      in d\<lparr>d_idum := x, d_iv := (if j < NTAB then (d_iv d)(int j \<mapsto> x) else d_iv d)\<rparr>)"

fun seed_loop :: "nat \<Rightarrow> deviates \<Rightarrow> deviates" where
  "seed_loop 0 d = seed_body 0 d"
| "seed_loop (Suc j) d = seed_loop j (seed_body (Suc j) d)"

text \<open>\<open>this._iv.length = 0\<close> removes every index entry.\<close>

definition clear_array :: "(int \<Rightarrow> 'a option) \<Rightarrow> (int \<Rightarrow> 'a option)" where
  "clear_array f = (\<lambda>k. if 0 \<le> k then None else f k)"

text \<open>\<open>isNaN(start) || start < 1 ? 1 : start\<close>\<close>

definition start_value :: "number \<Rightarrow> real" where
  "start_value start = (case start of NaN \<Rightarrow> 1 | Num v \<Rightarrow> if v < 1 then 1 else v)"

text \<open>
  \<open>uniform(start, init)\<close>. The local \<open>iy\<close> starts at \<open>0\<close> on every call and is read from
  \<open>_iv[0]\<close> only when \<open>init\<close> holds. A read of an entry that was never written is
  \<open>undefined\<close>, and the product \<open>AM * undefined\<close> is \<open>NaN\<close>.
\<close>

definition uniform :: "deviates \<Rightarrow> number \<Rightarrow> bool \<Rightarrow> number \<times> deviates" where
  "uniform d start init =
     (let d1 = (if init
                then seed_loop (NTAB + 7)
                       (d\<lparr>d_iv := clear_array (d_iv d), d_idum := start_value start\<rparr>)
                else d);
          iy0 = (if init then d_iv d1 0 else Some 0);
          x = advance (d_idum d1)
      in case iy0 of
           None \<Rightarrow> (NaN, d1\<lparr>d_idum := x\<rparr>)
         | Some iy \<Rightarrow>
             (let j = \<lfloor>iy / NDIV\<rfloor>;
                  d2 = d1\<lparr>d_idum := x, d_iv := (d_iv d1)(j \<mapsto> x)\<rparr>
              in case d_iv d1 j of
                   None \<Rightarrow> (NaN, d2)
                 | Some v \<Rightarrow> (Num (if AM * v > RNMX then RNMX else AM * v), d2)))"

text \<open>
  The calling pattern of the interface: \<open>uniform(s, true)\<close>, then \<open>n\<close> calls
  \<open>uniform(s, false)\<close>; the values returned, in order.
\<close>

fun uniform_calls :: "deviates \<Rightarrow> number \<Rightarrow> nat \<Rightarrow> number list" where
  "uniform_calls d s 0 = []"
| "uniform_calls d s (Suc n) = (let (r, d') = uniform d s False in r # uniform_calls d' s n)"

definition uniform_sequence :: "deviates \<Rightarrow> number \<Rightarrow> nat \<Rightarrow> number list" where
  "uniform_sequence d s n = (let (r, d') = uniform d s True in r # uniform_calls d' s n)"

text \<open>
  The parameter block that opens \<open>normal\<close> and \<open>logistic\<close> (the same two assignments in
  both), and the one that opens \<open>gamma\<close>, which is guarded by \<open>if (start)\<close>. The sampling
  loops that follow them compute with \<open>Math.log\<close> and \<open>Math.sqrt\<close> on doubles; they read
  these fields and do not assign them.
\<close>

definition normal_params :: "deviates \<Rightarrow> number \<Rightarrow> number \<Rightarrow> bool \<Rightarrow> deviates" where
  "normal_params d mu sig init =
     (if init
      then d\<lparr>d_u := (case mu of NaN \<Rightarrow> 0 | Num v \<Rightarrow> if v < 0 then 0 else v),
             d_s := (case sig of NaN \<Rightarrow> 1 | Num v \<Rightarrow> if v < 1 then 1 else v)\<rparr>
      else d)"

definition logistic_params :: "deviates \<Rightarrow> number \<Rightarrow> number \<Rightarrow> bool \<Rightarrow> deviates" where
  "logistic_params d mu sig init =
     (if init
      then d\<lparr>d_u := (case mu of NaN \<Rightarrow> 0 | Num v \<Rightarrow> if v < 0 then 0 else v),
             d_s := (case sig of NaN \<Rightarrow> 1 | Num v \<Rightarrow> if v < 1 then 1 else v)\<rparr>
      else d)"

definition gamma_params :: "deviates \<Rightarrow> number \<Rightarrow> number \<Rightarrow> number \<Rightarrow> deviates" where
  "gamma_params d start alpha beta =
     (if truthy start
      then (let a0 = (case alpha of NaN \<Rightarrow> 1 | Num v \<Rightarrow> if v \<le> 0 then 1 else v);
                a = (if a0 < 1 then a0 + 1 else a0);
                b = (case beta of NaN \<Rightarrow> 1 / 2 | Num v \<Rightarrow> if v < 1 / 10000 then 1 / 2 else v);
                a1 = a - 1 / 3;
                a2 = 1 / sqrt (9 * a1)
            in d\<lparr>d_a := a, d_b := b, d_a1 := a1, d_a2 := a2\<rparr>)
      else d)"


subsection \<open>Predicates for the generator's invariants\<close>

text \<open>
  \<open>in_range\<close>: an integer state of the generator between \<open>1\<close> and \<open>IM - 1\<close>.
  \<open>in_open_unit\<close>: a returned deviate that is a number, positive and at most \<open>RNMX\<close>.
  \<open>seeded\<close>: the state after the seeding loop of an initialising call.
  \<open>gen_ok\<close> and \<open>gen_eq\<close>: what a continuing call needs of the state, and the part of
  two states it reads.
\<close>

definition in_range :: "real \<Rightarrow> bool" where
  "in_range x = (of_int \<lfloor>x\<rfloor> = x \<and> 1 \<le> x \<and> x \<le> 2147483646)"

definition table_ok :: "nat \<Rightarrow> deviates \<Rightarrow> bool" where
  "table_ok n d = (\<forall>k. k \<le> n \<and> k < NTAB \<longrightarrow> (\<exists>v. d_iv d (int k) = Some v \<and> in_range v))"

definition in_open_unit :: "number \<Rightarrow> bool" where
  "in_open_unit r = (case r of NaN \<Rightarrow> False | Num v \<Rightarrow> 0 < v \<and> v \<le> RNMX)"

definition gen_ok :: "deviates \<Rightarrow> bool" where
  "gen_ok d =
     (in_range (d_idum d) \<and> (case d_iv d 0 of None \<Rightarrow> False | Some v \<Rightarrow> in_range v))"

definition gen_eq :: "deviates \<Rightarrow> deviates \<Rightarrow> bool" where
  "gen_eq d d' = (d_idum d = d_idum d' \<and> d_iv d 0 = d_iv d' 0)"

definition seeded :: "deviates \<Rightarrow> number \<Rightarrow> deviates" where
  "seeded d s = seed_loop (NTAB + 7) (d\<lparr>d_iv := clear_array (d_iv d), d_idum := start_value s\<rparr>)"

text \<open>\<open>advance_n n\<close>: \<open>n\<close> congruential steps in a row.\<close>

fun advance_n :: "nat \<Rightarrow> real \<Rightarrow> real" where
  "advance_n 0 x = x"
| "advance_n (Suc n) x = advance_n n (advance x)"


section \<open>The resampler (Bagging.ts)\<close>

text \<open>
  Every operation draws from one shared generator, \<open>TSMT$Bagging.__deviates\<close>; the model
  takes its state and returns the new one. An output set holds what \<open>push(data[index])\<close>
  stored: \<open>Some v\<close> for an element, \<open>None\<close> for \<open>undefined\<close>.
\<close>

record ISamples =
  sample_x :: "real option list"
  sample_y :: "real option list"

text \<open>
  The two statements that compute the index,
  \<open>index = Math.floor(Math.round(min + r * (max - min)))\<close> and
  \<open>index = Math.abs(index)\<close>, with \<open>min = -0.499\<close> and \<open>max = n - 1 + 0.499\<close>.
  \<open>rounded_index\<close> is the value after the first; \<open>index_value\<close> the value after the
  second, \<open>NaN\<close> (\<open>None\<close>) for a \<open>NaN\<close> deviate; \<open>sample_index\<close> the key under which
  \<open>data[index]\<close> and \<open>sampledIndices[index]\<close> access their arrays.
\<close>

definition rounded_index :: "nat \<Rightarrow> real \<Rightarrow> js_integer" where
  "rounded_index n v =
     (let min = - (499 / 1000);
          max = real n - 1 + 499 / 1000
      in Math_floor_signed (Math_round_signed (min + v * (max - min))))"

definition index_value :: "nat \<Rightarrow> number \<Rightarrow> js_integer option" where
  "index_value n r =
     (case r of NaN \<Rightarrow> None | Num v \<Rightarrow> Some (Math_abs_signed (rounded_index n v)))"

definition sample_index :: "nat \<Rightarrow> number \<Rightarrow> int option" where
  "sample_index n r = map_option value_of (index_value n r)"

text \<open>
  The defaults of \<open>numSets\<close>. \<open>get1DSamplesWithReplacement\<close> tests
  \<open>numSets == undefined || numSets == null || numSets < 1\<close> and rounds otherwise
  (\<open>Math.round(NaN)\<close> is \<open>NaN\<close>); the three other operations also test \<open>isNaN(numSets)\<close>.
\<close>

definition numSets_1D_with :: "nat \<Rightarrow> number option \<Rightarrow> number" where
  "numSets_1D_with n numSets =
     (case numSets of
        None \<Rightarrow> Num (real n)
      | Some NaN \<Rightarrow> NaN
      | Some (Num v) \<Rightarrow> if v < 1 then Num (real n) else Num (of_int (Math_round v)))"

definition numSets_default :: "nat \<Rightarrow> number option \<Rightarrow> number" where
  "numSets_default n numSets =
     (case numSets of
        None \<Rightarrow> Num (real n)
      | Some NaN \<Rightarrow> Num (real n)
      | Some (Num v) \<Rightarrow> if v < 1 then Num (real n) else Num (of_int (Math_round v)))"

text \<open>
  The sample size \<open>m\<close>. One dimension:
  \<open>m == undefined || isNaN(m) || m < 1 || m > n ? Math.floor(n/2) : Math.round(m)\<close>.
  Two dimensions: \<open>m == undefined || m < 1 || m > n ? Math.floor(n/2) : m\<close>.
\<close>

definition sampleSize_1D :: "nat \<Rightarrow> number option \<Rightarrow> number" where
  "sampleSize_1D n m =
     (case m of
        None \<Rightarrow> Num (real (n div 2))
      | Some NaN \<Rightarrow> Num (real (n div 2))
      | Some (Num v) \<Rightarrow>
          if v < 1 \<or> v > real n then Num (real (n div 2)) else Num (of_int (Math_round v)))"

definition sampleSize_2D :: "nat \<Rightarrow> number option \<Rightarrow> number" where
  "sampleSize_2D n m =
     (case m of
        None \<Rightarrow> Num (real (n div 2))
      | Some NaN \<Rightarrow> NaN
      | Some (Num v) \<Rightarrow> if v < 1 \<or> v > real n then Num (real (n div 2)) else Num v)"

subsection \<open>With replacement\<close>

text \<open>The inner loop \<open>for (j = 0; j < n; ++j)\<close>, by the number of turns left.\<close>

fun draw_set1D :: "real list \<Rightarrow> nat \<Rightarrow> deviates \<Rightarrow> real option list
    \<Rightarrow> real option list \<times> deviates" where
  "draw_set1D data 0 d out = (out, d)"
| "draw_set1D data (Suc c) d out =
     (let (r, d') = uniform d (Num 1001) False;
          index = sample_index (length data) r
      in draw_set1D data c d' (out @ [array_read data index]))"

text \<open>The outer loop \<open>for (i = 0; i < numSets; ++i)\<close>.\<close>

fun draw_sets1D :: "real list \<Rightarrow> nat \<Rightarrow> deviates \<Rightarrow> real option list list \<times> deviates" where
  "draw_sets1D data 0 d = ([], d)"
| "draw_sets1D data (Suc c) d =
     (let (s, d') = draw_set1D data (length data) d [];
          (rest, d'') = draw_sets1D data c d'
      in (s # rest, d''))"

definition get1DSamplesWithReplacement ::
    "deviates \<Rightarrow> real list option \<Rightarrow> number option \<Rightarrow> real option list list \<times> deviates" where
  "get1DSamplesWithReplacement d data numSets =
     (case data of
        None \<Rightarrow> ([], d)
      | Some xs \<Rightarrow>
          if length xs = 0 then ([], d)
          else (let n = length xs;
                    numSets' = numSets_1D_with n numSets;
                    (r, d0) = uniform d (Num 1001) True
                in draw_sets1D xs (loop_count numSets') d0))"

fun draw_set2D :: "real list \<Rightarrow> real list \<Rightarrow> nat \<Rightarrow> deviates \<Rightarrow> ISamples
    \<Rightarrow> ISamples \<times> deviates" where
  "draw_set2D x y 0 d out = (out, d)"
| "draw_set2D x y (Suc c) d out =
     (let (r, d') = uniform d (Num 1001) False;
          index = sample_index (length x) r
      in draw_set2D x y c d'
           (out\<lparr>sample_x := sample_x out @ [array_read x index],
                sample_y := sample_y out @ [array_read y index]\<rparr>))"

fun draw_sets2D :: "real list \<Rightarrow> real list \<Rightarrow> nat \<Rightarrow> deviates \<Rightarrow> ISamples list \<times> deviates" where
  "draw_sets2D x y 0 d = ([], d)"
| "draw_sets2D x y (Suc c) d =
     (let (s, d') = draw_set2D x y (length x) d \<lparr>sample_x = [], sample_y = []\<rparr>;
          (rest, d'') = draw_sets2D x y c d'
      in (s # rest, d''))"

definition get2DSamplesWithReplacement ::
    "deviates \<Rightarrow> real list option \<Rightarrow> real list option \<Rightarrow> number option
      \<Rightarrow> ISamples list \<times> deviates" where
  "get2DSamplesWithReplacement d x y numSets =
     (case x of
        None \<Rightarrow> ([], d)
      | Some xs \<Rightarrow>
          (case y of
             None \<Rightarrow> ([], d)
           | Some ys \<Rightarrow>
               if length xs = 0 then ([], d)
               else if length ys \<noteq> length xs then ([], d)
               else (let n = length xs;
                         numSets' = numSets_default n numSets;
                         (r, d0) = uniform d (Num 1001) True
                     in draw_sets2D xs ys (loop_count numSets') d0)))"

subsection \<open>Without replacement\<close>

text \<open>
  \<open>sampledIndices\<close> is an array used as a set of keys; \<open>length = 0\<close> removes the index
  keys and keeps a \<open>NaN\<close> key (\<open>None\<close>), which is a property. The inner loop
  \<open>while (tmp.length < m)\<close> has no bound on its turns: not returning is \<open>None\<close>.
\<close>

definition clear_sampled :: "int option set \<Rightarrow> int option set" where
  "clear_sampled sampled = sampled \<inter> {None}"

partial_function (option) fill_set1D ::
    "real list \<Rightarrow> number \<Rightarrow> deviates \<Rightarrow> real option list \<Rightarrow> int option set
      \<Rightarrow> (real option list \<times> deviates \<times> int option set) option" where
  "fill_set1D data m d tmp sampled =
     (if js_lt (Num (real (length tmp))) m
      then (let p = uniform d (Num 1001) False;
                index = sample_index (length data) (fst p)
            in if index \<notin> sampled
               then fill_set1D data m (snd p) (tmp @ [array_read data index]) (insert index sampled)
               else fill_set1D data m (snd p) tmp sampled)
      else Some (tmp, d, sampled))"

fun fill_sets1D :: "real list \<Rightarrow> number \<Rightarrow> nat \<Rightarrow> deviates \<Rightarrow> int option set
    \<Rightarrow> (real option list list \<times> deviates) option" where
  "fill_sets1D data m 0 d sampled = Some ([], d)"
| "fill_sets1D data m (Suc c) d sampled =
     (case fill_set1D data m d [] (clear_sampled sampled) of
        None \<Rightarrow> None
      | Some (tmp, d', sampled') \<Rightarrow>
          (case fill_sets1D data m c d' sampled' of
             None \<Rightarrow> None
           | Some (rest, d'') \<Rightarrow> Some (tmp # rest, d'')))"

definition get1DSamplesWithoutReplacement ::
    "deviates \<Rightarrow> real list option \<Rightarrow> number option \<Rightarrow> number option
      \<Rightarrow> (real option list list \<times> deviates) option" where
  "get1DSamplesWithoutReplacement d data m numSets =
     (case data of
        None \<Rightarrow> Some ([], d)
      | Some xs \<Rightarrow>
          if length xs = 0 then Some ([], d)
          else (let n = length xs;
                    m' = sampleSize_1D n m;
                    numSets' = numSets_default n numSets;
                    (r, d0) = uniform d (Num 1001) True
                in fill_sets1D xs m' (loop_count numSets') d0 {}))"

partial_function (option) fill_set2D ::
    "real list \<Rightarrow> real list \<Rightarrow> number \<Rightarrow> deviates \<Rightarrow> ISamples \<Rightarrow> int option set
      \<Rightarrow> (ISamples \<times> deviates \<times> int option set) option" where
  "fill_set2D xs ys m d out sampled =
     (if js_lt (Num (real (length (sample_x out)))) m
      then (let p = uniform d (Num 1001) False;
                index = sample_index (length xs) (fst p)
            in if index \<notin> sampled
               then fill_set2D xs ys m (snd p)
                      (out\<lparr>sample_x := sample_x out @ [array_read xs index],
                           sample_y := sample_y out @ [array_read ys index]\<rparr>)
                      (insert index sampled)
               else fill_set2D xs ys m (snd p) out sampled)
      else Some (out, d, sampled))"

fun fill_sets2D :: "real list \<Rightarrow> real list \<Rightarrow> number \<Rightarrow> nat \<Rightarrow> deviates \<Rightarrow> int option set
    \<Rightarrow> (ISamples list \<times> deviates) option" where
  "fill_sets2D x y m 0 d sampled = Some ([], d)"
| "fill_sets2D x y m (Suc c) d sampled =
     (case fill_set2D x y m d \<lparr>sample_x = [], sample_y = []\<rparr> (clear_sampled sampled) of
        None \<Rightarrow> None
      | Some (s, d', sampled') \<Rightarrow>
          (case fill_sets2D x y m c d' sampled' of
             None \<Rightarrow> None
           | Some (rest, d'') \<Rightarrow> Some (s # rest, d'')))"

definition get2DSamplesWithoutReplacement ::
    "deviates \<Rightarrow> real list option \<Rightarrow> real list option \<Rightarrow> number option \<Rightarrow> number option
      \<Rightarrow> (ISamples list \<times> deviates) option" where
  "get2DSamplesWithoutReplacement d x y m numSets =
     (case x of
        None \<Rightarrow> Some ([], d)
      | Some xs \<Rightarrow>
          (case y of
             None \<Rightarrow> Some ([], d)
           | Some ys \<Rightarrow>
               if length xs = 0 then Some ([], d)
               else if length ys \<noteq> length xs then Some ([], d)
               else (let n = length xs;
                         m' = sampleSize_2D n m;
                         numSets' = numSets_default n numSets;
                         (r, d0) = uniform d (Num 1001) True
                     in fill_sets2D xs ys m' (loop_count numSets') d0 {})))"

subsection \<open>Predicates for the resampled sets\<close>

text \<open>
  \<open>copies_of data s\<close>: every element of the set \<open>s\<close> is an element of \<open>data\<close>, none is
  \<open>undefined\<close>. \<open>pairs_of x y s\<close>: the two halves of \<open>s\<close> have one length and every pair
  \<open>(s.x[i], s.y[i])\<close> is a pair \<open>(x[k], y[k])\<close> of the input.
\<close>

definition copies_of :: "real list \<Rightarrow> real option list \<Rightarrow> bool" where
  "copies_of data s = (set s \<subseteq> Some ` set data)"

definition pairs_of :: "real list \<Rightarrow> real list \<Rightarrow> ISamples \<Rightarrow> bool" where
  "pairs_of x y s =
     (length (sample_x s) = length (sample_y s)
      \<and> set (zip (sample_x s) (sample_y s)) \<subseteq> (\<lambda>(a, b). (Some a, Some b)) ` set (zip x y))"

text \<open>
  \<open>drawn_from data idxs s\<close>: the set \<open>s\<close> holds the elements of \<open>data\<close> at the indices
  \<open>idxs\<close>, which are in bounds and pairwise distinct; \<open>drawn_from2D\<close> says so of both
  halves of a two-dimensional set, for one list of indices.
\<close>

definition drawn_from :: "real list \<Rightarrow> nat list \<Rightarrow> real option list \<Rightarrow> bool" where
  "drawn_from data idxs s =
     (distinct idxs \<and> list_all (\<lambda>i. i < length data) idxs \<and> s = map (\<lambda>i. Some (data ! i)) idxs)"

definition drawn_from2D :: "real list \<Rightarrow> real list \<Rightarrow> nat list \<Rightarrow> ISamples \<Rightarrow> bool" where
  "drawn_from2D x y idxs s =
     (drawn_from x idxs (sample_x s) \<and> drawn_from y idxs (sample_y s))"


section \<open>The linear estimator (llsq.ts)\<close>

text \<open>
  The result object \<open>{a, b, siga, sigb, chi2, r}\<close> of \<open>TSMT$LLSQ.fit\<close>; the model is
  \<open>a * x + b\<close>.
\<close>

record ILLSQResult =
  res_a :: number
  res_b :: number
  res_siga :: number
  res_sigb :: number
  res_chi2 :: number
  res_r :: number

definition LLSQ_zero :: ILLSQResult where
  "LLSQ_zero =
     \<lparr>res_a = Num 0, res_b = Num 0, res_siga = Num 0, res_sigb = Num 0,
      res_chi2 = Num 0, res_r = Num 0\<rparr>"

text \<open>
  The body of \<open>fit\<close> after its guard, where both arrays have the same length
  \<open>n \<ge> 3\<close> and every read is in bounds. The three loops are the sums below. The local
  \<open>b\<close> is the slope and \<open>a\<close> the intercept; the result swaps them
  (\<open>{a: b, b: a, ...}\<close>).
\<close>

definition LLSQ_compute :: "real list \<Rightarrow> real list \<Rightarrow> ILLSQResult" where
  "LLSQ_compute xs ys =
     (let n = length xs;
          sx = sum_list xs;
          sy = sum_list ys;
          ss = real n;
          sxoss = sx / ss;
          ybar = sy / ss;
          st2 = sum_list (map (\<lambda>x. (x - sxoss) * (x - sxoss)) xs);
          b0 = sum_list (map (\<lambda>(x, y). (x - sxoss) * y) (zip xs ys));
          b = ndiv (Num b0) (Num st2);
          a = ndiv (nsub (Num sy) (nmul (Num sx) b)) (Num ss);
          siga0 = nsqrt (ndiv (nadd (Num 1) (ndiv (Num (sx * sx)) (Num (ss * st2)))) (Num ss));
          sigb0 = nsqrt (ndiv (Num 1) (Num st2));
          chi2 = nsum (map (\<lambda>(x, y). let t = nsub (nsub (Num y) a) (nmul b (Num x))
                                        in nmul t t) (zip xs ys));
          s = sum_list (map (\<lambda>y. (y - ybar) * (y - ybar)) ys);
          sigdat = (if n > 2 then nsqrt (ndiv chi2 (Num (real n - 2))) else Num 1);
          siga = nmul siga0 sigdat;
          sigb = nmul sigb0 sigdat;
          r = nsub (Num 1) (ndiv chi2 (Num s))
      in \<lparr>res_a = b, res_b = a, res_siga = siga, res_sigb = sigb, res_chi2 = chi2, res_r = r\<rparr>)"

text \<open>
  \<open>fit(_x, _y)\<close>. The first statement reads \<open>_x.length\<close>, which throws a
  \<open>TypeError\<close> when \<open>_x\<close> is \<open>null\<close> or \<open>undefined\<close>; the guard
  \<open>n < 3 || _y.length != n\<close> reads \<open>_y.length\<close> only when \<open>n \<ge> 3\<close>.
\<close>

definition LLSQ_fit :: "real list option \<Rightarrow> real list option \<Rightarrow> error + ILLSQResult" where
  "LLSQ_fit x y =
     (case x of
        None \<Rightarrow> Inl TypeError
      | Some xs \<Rightarrow>
          if length xs < 3 then Inr LLSQ_zero
          else (case y of
                  None \<Rightarrow> Inl TypeError
                | Some ys \<Rightarrow>
                    if length ys \<noteq> length xs then Inr LLSQ_zero
                    else Inr (LLSQ_compute xs ys)))"


section \<open>The polynomial estimator (src/libs/Pllsq.ts)\<close>

text \<open>
  The instance keeps the coefficients \<open>_c\<close> and their number \<open>_n\<close>. Its matrix object
  belongs to \<open>./Matrix\<close>, which is not among the sources: \<open>fromArray(a)\<close> followed by
  \<open>solve(b)\<close> is the parameter \<open>solve\<close> of \<open>Pllsq_fit\<close>, which returns the solution
  or throws.
\<close>

record pllsq =
  p_c :: "number list"
  p_n :: nat

definition Pllsq_new :: pllsq where
  "Pllsq_new = \<lparr>p_c = [], p_n = 0\<rparr>"

text \<open>
  The result. The object returned for malformed input is \<open>{coef: [], r: 0, rms: 0}\<close>;
  the one returned after a fit has no \<open>r\<close>.
\<close>

record IPolyLLSQResult =
  poly_coef :: "number list"
  poly_r :: "number option"
  poly_rms :: number

definition Pllsq_empty :: IPolyLLSQResult where
  "Pllsq_empty = \<lparr>poly_coef = [], poly_r = Some (Num 0), poly_rms = Num 0\<rparr>"

text \<open>
  \<open>eval(x)\<close>: nested multiplication, \<open>for (i = n - 2; i >= 0; i--) val = x * val + c[i]\<close>;
  the counter of \<open>eval_loop\<close> is \<open>i + 1\<close>.
\<close>

fun eval_loop :: "number list \<Rightarrow> number \<Rightarrow> nat \<Rightarrow> number \<Rightarrow> number" where
  "eval_loop c x 0 val = val"
| "eval_loop c x (Suc i) val = eval_loop c x i (nadd (nmul x val) (c ! i))"

definition Pllsq_eval :: "pllsq \<Rightarrow> number \<Rightarrow> number" where
  "Pllsq_eval p x =
     (if length (p_c p) = 0 then Num 0
      else (let n = length (p_c p)
            in eval_loop (p_c p) x (n - 1) (p_c p ! (n - 1))))"

text \<open>\<open>m = isNaN(m) || m < 1 ? 1 : Math.round(m) + 1\<close>: the number of coefficients.\<close>

definition coefficient_count :: "number \<Rightarrow> nat" where
  "coefficient_count m =
     (case m of NaN \<Rightarrow> 1 | Num v \<Rightarrow> if v < 1 then 1 else nat (Math_round v + 1))"

text \<open>\<open>y[j]\<close> in arithmetic: \<open>NaN\<close> when \<open>y\<close> is shorter than \<open>x\<close>.\<close>

definition y_at :: "real list \<Rightarrow> nat \<Rightarrow> number" where
  "y_at ys j = (if j < length ys then Num (ys ! j) else NaN)"

text \<open>
  \<open>fit(x, y, m)\<close>. \<open>asums[i]\<close> is the sum of the \<open>i\<close>-th powers of the abscissas
  (\<open>asums[0] = n\<close>), \<open>b[i]\<close> the sum of \<open>x[j]^i * y[j]\<close>, and \<open>a[i][j] = asums[i + j]\<close>.
\<close>

definition normal_equations :: "real list \<Rightarrow> real list \<Rightarrow> nat \<Rightarrow> real list list \<times> number list" where
  "normal_equations xs ys m' =
     (let n = length xs;
          len = 2 * (m' - 1);
          asums = real n # map (\<lambda>i. sum_list (map (\<lambda>xj. xj ^ i) xs)) [1..<len + 1];
          b = map (\<lambda>i. nsum (map (\<lambda>j. nmul (Num (xs ! j ^ i)) (y_at ys j)) [0..<n])) [0..<m'];
          a = map (\<lambda>i. map (\<lambda>j. asums ! (i + j)) [0..<m']) [0..<m']
      in (a, b))"

definition Pllsq_fit ::
    "(real list list \<Rightarrow> number list \<Rightarrow> error + number list) \<Rightarrow> pllsq
      \<Rightarrow> real list option \<Rightarrow> real list option \<Rightarrow> number
      \<Rightarrow> error + (IPolyLLSQResult \<times> pllsq)" where
  "Pllsq_fit solve p x y m =
     (case x of
        None \<Rightarrow> Inr (Pllsq_empty, p)
      | Some xs \<Rightarrow>
          (case y of
             None \<Rightarrow> Inr (Pllsq_empty, p)
           | Some ys \<Rightarrow>
               (let n = length xs;
                    m' = coefficient_count m
                in if n \<le> m' then Inr (Pllsq_empty, p)
                   else (let (a, b) = normal_equations xs ys m'
                         in case solve a b of
                              Inl e \<Rightarrow> Inl e
                            | Inr c \<Rightarrow>
                                (let p' = p\<lparr>p_c := c, p_n := m'\<rparr>;
                                     s = nsum (map (\<lambda>i. let t = nsub (Pllsq_eval p' (Num (xs ! i)))
                                                                  (y_at ys i)
                                                       in nmul t t) [0..<n])
                                 in Inr (\<lparr>poly_coef = c, poly_r = None,
                                          poly_rms = nsqrt (ndiv s (Num (real n)))\<rparr>, p'))))))"


section \<open>Theorems: the uniform generator\<close>

subsection \<open>The congruential step keeps an integer state between 1 and IM - 1\<close>


lemma in_range_alt:
  "in_range x = (\<exists>z::int. x = of_int z \<and> 1 \<le> z \<and> z \<le> 2147483646)"
proof
  assume "in_range x"
  then have "x = of_int \<lfloor>x\<rfloor>" "1 \<le> x" "x \<le> 2147483646"
    unfolding in_range_def by auto
  then have "x = of_int \<lfloor>x\<rfloor> \<and> 1 \<le> \<lfloor>x\<rfloor> \<and> \<lfloor>x\<rfloor> \<le> 2147483646"
    by (simp add: le_floor_iff floor_le_iff)
  then show "\<exists>z::int. x = of_int z \<and> 1 \<le> z \<and> z \<le> 2147483646" ..
next
  assume "\<exists>z::int. x = of_int z \<and> 1 \<le> z \<and> z \<le> 2147483646"
  then obtain z :: int where "x = of_int z" "1 \<le> z" "z \<le> 2147483646" by blast
  then show "in_range x" unfolding in_range_def by simp
qed

lemma gen_ok_alt:
  "gen_ok d = (in_range (d_idum d) \<and> (\<exists>v. d_iv d 0 = Some v \<and> in_range v))"
  unfolding gen_ok_def by (auto split: option.splits)

lemma schrage_nonzero:
  fixes z :: int
  assumes "1 \<le> z" "z \<le> 2147483646"
  shows "16807 * (z mod 127773) - 2836 * (z div 127773) \<noteq> 0"
proof
  define k where "k = z div 127773"
  define r where "r = z mod 127773"
  assume "16807 * (z mod 127773) - 2836 * (z div 127773) = 0"
  then have eq: "16807 * r = 2836 * k" by (simp add: k_def r_def)
  have zkr: "z = 127773 * k + r" by (simp add: k_def r_def)
  have k0: "0 \<le> k" "k \<le> 16807" using assms by (auto simp: k_def)
  have "k = 16807 * (- 977 * k) + 5790 * (2836 * k)" by simp
  also have "\<dots> = 16807 * (5790 * r - 977 * k)" unfolding eq [symmetric] by simp
  finally have q: "k = 16807 * (5790 * r - 977 * k)" .
  define q where "q = 5790 * r - 977 * k"
  have kq: "k = 16807 * q" using q by (simp add: q_def)
  with k0 have "q = 0 \<or> q = 1" by auto
  then show False
  proof
    assume "q = 0"
    with kq eq have "k = 0" "r = 0" by auto
    with zkr assms show False by simp
  next
    assume "q = 1"
    with kq eq have "k = 16807" "r = 2836" by auto
    with zkr assms show False by simp
  qed
qed

lemma advance_of_int:
  "advance (of_int z) =
     of_int (let y = 16807 * (z mod 127773) - 2836 * (z div 127773)
             in if y < 0 then y + 2147483647 else y)"
proof -
  define y where "y = 16807 * (z mod 127773) - 2836 * (z div 127773)"
  have f: "\<lfloor>(of_int z :: real) / 127773\<rfloor> = z div 127773"
    using floor_divide_of_int_eq [of z 127773, where ?'a = real] by simp
  have m: "z mod 127773 = z - z div 127773 * 127773"
    by (simp add: minus_div_mult_eq_mod)
  have yr: "16807 * ((of_int z :: real) - of_int (z div 127773) * 127773)
              - 2836 * of_int (z div 127773) = of_int y"
    unfolding y_def m by simp
  have neg: "(of_int y :: real) < 0 \<longleftrightarrow> y < 0" by simp
  have "advance (of_int z) = (if (of_int y :: real) < 0 then of_int y + 2147483647 else of_int y)"
    unfolding advance_def IA_def IM_def IQ_def IR_def Let_def f yr ..
  also have "\<dots> = of_int (if y < 0 then y + 2147483647 else y)"
    unfolding neg by simp
  finally show ?thesis unfolding y_def Let_def .
qed

lemma advance_in_range: "in_range x \<Longrightarrow> in_range (advance x)"
proof -
  assume "in_range x"
  then obtain z :: int where z: "x = of_int z" "1 \<le> z" "z \<le> 2147483646"
    unfolding in_range_alt by blast
  define y where "y = 16807 * (z mod 127773) - 2836 * (z div 127773)"
  have nz: "y \<noteq> 0" unfolding y_def using schrage_nonzero z by blast
  have r: "0 \<le> z mod 127773" "z mod 127773 \<le> 127772" by auto
  have k: "0 \<le> z div 127773" "z div 127773 \<le> 16807" using z by auto
  have b: "- 2147483647 < y" "y < 2147483647" unfolding y_def using r k by linarith+
  have "advance x = of_int (if y < 0 then y + 2147483647 else y)"
    unfolding z advance_of_int y_def Let_def ..
  moreover have "1 \<le> (if y < 0 then y + 2147483647 else y)"
    "(if y < 0 then y + 2147483647 else y) \<le> 2147483646"
    using nz b by auto
  ultimately show ?thesis unfolding in_range_alt by blast
qed

lemma in_range_bounds: "in_range x \<Longrightarrow> 1 \<le> x \<and> x \<le> 2147483646"
  unfolding in_range_alt by auto

text \<open>A value of the generator, scaled and clamped, lies in the open unit interval.\<close>

lemma scaled_in_unit:
  assumes "in_range v"
  shows "0 < (if AM * v > RNMX then RNMX else AM * v)"
    and "(if AM * v > RNMX then RNMX else AM * v) \<le> RNMX"
  using in_range_bounds [OF assms]
  by (auto simp: AM_def IM_def RNMX_def EPS_def)

lemma RNMX_less_1: "RNMX < 1"
  by (simp add: RNMX_def EPS_def)

lemma slot_of_in_range:
  assumes "in_range v"
  shows "0 \<le> \<lfloor>v / NDIV\<rfloor>" and "\<lfloor>v / NDIV\<rfloor> < 32"
proof -
  have b: "1 \<le> v" "v \<le> 2147483646" using in_range_bounds [OF assms] by auto
  have N: "NDIV = 1073741839 / 16" by (simp add: NDIV_def IM_def NTAB_def)
  have "0 \<le> v / NDIV" using b by (simp add: N)
  then show "0 \<le> \<lfloor>v / NDIV\<rfloor>" by simp
  have "v / NDIV < 32" using b by (simp add: N)
  then show "\<lfloor>v / NDIV\<rfloor> < 32" by (simp add: floor_less_iff)
qed

text \<open>The seeding loop: the state after it is a function of the seed alone.\<close>

lemma seed_body_simps:
  "d_idum (seed_body j d) = advance (d_idum d)"
  "d_iv (seed_body j d) = (if j < NTAB then (d_iv d)(int j \<mapsto> advance (d_idum d)) else d_iv d)"
  by (simp_all add: seed_body_def Let_def)

lemma seed_loop_keeps:
  "n < k \<Longrightarrow> d_iv (seed_loop n d) (int k) = d_iv d (int k)"
  by (induction n arbitrary: d) (simp_all add: seed_body_simps)

lemma seed_loop_in_range:
  "in_range (d_idum d) \<Longrightarrow> in_range (d_idum (seed_loop n d)) \<and> table_ok n (seed_loop n d)"
proof (induction n arbitrary: d)
  case 0
  then show ?case
    by (simp add: seed_body_simps table_ok_def advance_in_range NTAB_def)
next
  case (Suc n)
  let ?d = "seed_body (Suc n) d"
  have r: "in_range (d_idum ?d)" using Suc.prems by (simp add: seed_body_simps advance_in_range)
  from Suc.IH [OF r] have ih: "in_range (d_idum (seed_loop n ?d))" "table_ok n (seed_loop n ?d)"
    by auto
  have top: "Suc n < NTAB \<Longrightarrow> d_iv (seed_loop n ?d) (int (Suc n)) = Some (d_idum ?d)"
    unfolding seed_loop_keeps [of n "Suc n" ?d, OF lessI] by (simp add: seed_body_simps)
  have "table_ok (Suc n) (seed_loop n ?d)"
    unfolding table_ok_def
  proof (intro allI impI)
    fix k assume k: "k \<le> Suc n \<and> k < NTAB"
    show "\<exists>v. d_iv (seed_loop n ?d) (int k) = Some v \<and> in_range v"
    proof (cases "k = Suc n")
      case True
      with k top r show ?thesis by auto
    next
      case False
      with k have "k \<le> n \<and> k < NTAB" by auto
      with ih(2) show ?thesis unfolding table_ok_def by blast
    qed
  qed
  with ih(1) show ?case by simp
qed

lemma seed_loop_slot0: "d_iv (seed_loop n d) 0 = Some (d_idum (seed_loop n d))"
  by (induction n arbitrary: d) (simp_all add: seed_body_simps NTAB_def)

lemma seed_loop_indep:
  "d_idum d = d_idum d' \<Longrightarrow>
     d_idum (seed_loop n d) = d_idum (seed_loop n d')
     \<and> (\<forall>k. k \<le> n \<and> k < NTAB \<longrightarrow> d_iv (seed_loop n d) (int k) = d_iv (seed_loop n d') (int k))"
proof (induction n arbitrary: d d')
  case 0
  then show ?case by (simp add: seed_body_simps)
next
  case (Suc n)
  let ?d = "seed_body (Suc n) d" and ?d' = "seed_body (Suc n) d'"
  have e: "d_idum ?d = d_idum ?d'" using Suc.prems by (simp add: seed_body_simps)
  note ih = Suc.IH [OF e]
  have top: "Suc n < NTAB \<Longrightarrow> d_iv (seed_loop n ?d) (int (Suc n)) = d_iv (seed_loop n ?d') (int (Suc n))"
    unfolding seed_loop_keeps [of n "Suc n", OF lessI]
    using Suc.prems by (simp add: seed_body_simps)
  show ?case
  proof (intro conjI allI impI)
    show "d_idum (seed_loop (Suc n) d) = d_idum (seed_loop (Suc n) d')" using ih by simp
  next
    fix k assume k: "k \<le> Suc n \<and> k < NTAB"
    show "d_iv (seed_loop (Suc n) d) (int k) = d_iv (seed_loop (Suc n) d') (int k)"
    proof (cases "k = Suc n")
      case True
      with k top show ?thesis by simp
    next
      case False
      with k have "k \<le> n \<and> k < NTAB" by auto
      with ih show ?thesis by simp
    qed
  qed
qed


lemma uniform_continue:
  "uniform d s False =
     (case d_iv d 0 of
        None \<Rightarrow> NaN
      | Some v \<Rightarrow> Num (if AM * v > RNMX then RNMX else AM * v),
      d\<lparr>d_idum := advance (d_idum d), d_iv := (d_iv d)(0 \<mapsto> advance (d_idum d))\<rparr>)"
  by (simp add: uniform_def Let_def split: option.split)

lemma uniform_continue_ok:
  assumes "gen_ok d"
  shows "in_open_unit (fst (uniform d s False)) \<and> gen_ok (snd (uniform d s False))"
proof -
  from assms obtain v where v: "d_iv d 0 = Some v" "in_range v" and i: "in_range (d_idum d)"
    unfolding gen_ok_alt by blast
  show ?thesis
    unfolding uniform_continue v
    using scaled_in_unit [OF v(2)] advance_in_range [OF i]
    by (simp add: in_open_unit_def gen_ok_alt)
qed

lemma uniform_continue_eq:
  assumes "gen_eq d d'"
  shows "fst (uniform d s False) = fst (uniform d' s False)
         \<and> gen_eq (snd (uniform d s False)) (snd (uniform d' s False))"
  using assms unfolding uniform_continue gen_eq_def by simp

lemma uniform_init_unfold:
  fixes d s
  assumes "in_range (start_value s)"
  defines "d1 \<equiv> seeded d s"
  shows "\<exists>v. d_iv d1 \<lfloor>d_idum d1 / NDIV\<rfloor> = Some v \<and> in_range v
           \<and> uniform d s True =
               (Num (if AM * v > RNMX then RNMX else AM * v),
                d1\<lparr>d_idum := advance (d_idum d1),
                   d_iv := (d_iv d1)(\<lfloor>d_idum d1 / NDIV\<rfloor> \<mapsto> advance (d_idum d1))\<rparr>)"
proof -
  have r0: "in_range (d_idum (d\<lparr>d_iv := clear_array (d_iv d), d_idum := start_value s\<rparr>))"
    using assms(1) by simp
  from seed_loop_in_range [OF r0, of "NTAB + 7"]
  have r: "in_range (d_idum d1)" and t: "table_ok (NTAB + 7) d1"
    unfolding d1_def seeded_def by auto
  have s0: "d_iv d1 0 = Some (d_idum d1)" unfolding d1_def seeded_def by (rule seed_loop_slot0)
  define j where "j = \<lfloor>d_idum d1 / NDIV\<rfloor>"
  have j: "0 \<le> j" "j < 32" unfolding j_def using slot_of_in_range [OF r] by auto
  then have "nat j \<le> NTAB + 7 \<and> nat j < NTAB" unfolding NTAB_def by linarith
  with t obtain v where v: "d_iv d1 (int (nat j)) = Some v" "in_range v"
    unfolding table_ok_def by blast
  with j have v': "d_iv d1 j = Some v" by simp
  have "uniform d s True =
          (Num (if AM * v > RNMX then RNMX else AM * v),
           d1\<lparr>d_idum := advance (d_idum d1), d_iv := (d_iv d1)(j \<mapsto> advance (d_idum d1))\<rparr>)"
    unfolding uniform_def seeded_def [symmetric] d1_def [symmetric] Let_def
    by (simp add: s0 j_def [symmetric] v')
  with v' v(2) show ?thesis unfolding j_def by blast
qed

lemma uniform_init_ok:
  assumes "in_range (start_value s)"
  shows "in_open_unit (fst (uniform d s True)) \<and> gen_ok (snd (uniform d s True))"
proof -
  define d1 where "d1 = seeded d s"
  from uniform_init_unfold [OF assms, of d] obtain v where
    v: "d_iv d1 \<lfloor>d_idum d1 / NDIV\<rfloor> = Some v" "in_range v"
    and u: "uniform d s True =
               (Num (if AM * v > RNMX then RNMX else AM * v),
                d1\<lparr>d_idum := advance (d_idum d1),
                   d_iv := (d_iv d1)(\<lfloor>d_idum d1 / NDIV\<rfloor> \<mapsto> advance (d_idum d1))\<rparr>)"
    unfolding d1_def by blast
  have r0: "in_range (d_idum (d\<lparr>d_iv := clear_array (d_iv d), d_idum := start_value s\<rparr>))"
    using assms(1) by simp
  from seed_loop_in_range [OF r0, of "NTAB + 7"]
  have r: "in_range (d_idum d1)" unfolding d1_def seeded_def by auto
  have s0: "d_iv d1 0 = Some (d_idum d1)" unfolding d1_def seeded_def by (rule seed_loop_slot0)
  show ?thesis
    unfolding u using scaled_in_unit [OF v(2)] advance_in_range [OF r] r s0
    by (simp add: in_open_unit_def gen_ok_alt)
qed

lemma uniform_init_eq:
  assumes "in_range (start_value s)"
  shows "fst (uniform d s True) = fst (uniform d' s True)
         \<and> gen_eq (snd (uniform d s True)) (snd (uniform d' s True))"
proof -
  define e where "e = d\<lparr>d_iv := clear_array (d_iv d), d_idum := start_value s\<rparr>"
  define e' where "e' = d'\<lparr>d_iv := clear_array (d_iv d'), d_idum := start_value s\<rparr>"
  define d1 where "d1 = seeded d s"
  define d1' where "d1' = seeded d' s"
  have d1e: "d1 = seed_loop (NTAB + 7) e" "d1' = seed_loop (NTAB + 7) e'"
    by (simp_all add: d1_def d1'_def e_def e'_def seeded_def)
  have "d_idum e = d_idum e'" by (simp add: e_def e'_def)
  from seed_loop_indep [OF this, of "NTAB + 7"]
  have i: "d_idum d1 = d_idum d1'"
    and t: "\<And>k. k \<le> NTAB + 7 \<and> k < NTAB \<Longrightarrow> d_iv d1 (int k) = d_iv d1' (int k)"
    unfolding d1e by auto
  have r0: "in_range (d_idum e)" using assms by (simp add: e_def)
  from seed_loop_in_range [OF r0, of "NTAB + 7"]
  have r: "in_range (d_idum d1)" unfolding d1e by auto
  define j where "j = \<lfloor>d_idum d1 / NDIV\<rfloor>"
  have j: "0 \<le> j" "j < 32" unfolding j_def using slot_of_in_range [OF r] by auto
  have "nat j \<le> NTAB + 7 \<and> nat j < NTAB" using j unfolding NTAB_def by linarith
  from t [OF this] have tj: "d_iv d1 j = d_iv d1' j" using j by simp
  have t0: "d_iv d1 0 = d_iv d1' 0" using t [of 0] by (simp add: NTAB_def)
  from uniform_init_unfold [OF assms, of d] obtain v where
    v: "d_iv d1 j = Some v"
    and u: "uniform d s True =
               (Num (if AM * v > RNMX then RNMX else AM * v),
                d1\<lparr>d_idum := advance (d_idum d1), d_iv := (d_iv d1)(j \<mapsto> advance (d_idum d1))\<rparr>)"
    unfolding d1_def j_def by blast
  from uniform_init_unfold [OF assms, of d'] obtain v' where
    v': "d_iv d1' j = Some v'"
    and u': "uniform d' s True =
               (Num (if AM * v' > RNMX then RNMX else AM * v'),
                d1'\<lparr>d_idum := advance (d_idum d1'), d_iv := (d_iv d1')(j \<mapsto> advance (d_idum d1'))\<rparr>)"
    unfolding d1'_def [symmetric] j_def i by blast
  have "v = v'" using v v' tj by simp
  then show ?thesis unfolding u u' gen_eq_def using i t0 by simp
qed

lemma uniform_calls_ok:
  "gen_ok d \<Longrightarrow> list_all in_open_unit (uniform_calls d s n)"
proof (induction n arbitrary: d)
  case 0
  then show ?case by simp
next
  case (Suc n)
  from uniform_continue_ok [OF Suc.prems, of s]
  have a: "in_open_unit (fst (uniform d s False))" and b: "gen_ok (snd (uniform d s False))"
    by auto
  show ?case using a Suc.IH [OF b] by (simp add: case_prod_unfold Let_def)
qed

lemma uniform_calls_eq:
  "gen_eq d d' \<Longrightarrow> uniform_calls d s n = uniform_calls d' s n"
proof (induction n arbitrary: d d')
  case 0
  then show ?case by simp
next
  case (Suc n)
  from uniform_continue_eq [OF Suc.prems, of s]
  have a: "fst (uniform d s False) = fst (uniform d' s False)"
    and b: "gen_eq (snd (uniform d s False)) (snd (uniform d' s False))"
    by auto
  show ?case using a Suc.IH [OF b] by (simp add: case_prod_unfold Let_def)
qed

lemma uniform_calls_length: "length (uniform_calls d s n) = n"
  by (induction n arbitrary: d) (simp_all add: case_prod_unfold Let_def)

lemma start_value_int:
  fixes s :: int
  shows "1 \<le> s \<Longrightarrow> s \<le> 2147483646 \<Longrightarrow> in_range (start_value (Num (of_int s)))"
  unfolding start_value_def in_range_alt by auto

subsection \<open>The initialising call in closed form\<close>

lemmas advance_eval = advance_def IA_def IM_def IQ_def IR_def Let_def

lemma advance_n_numeral:
  "advance_n (numeral k) x = advance_n (pred_numeral k) (advance x)"
  by (simp add: numeral_eq_Suc)

lemma advance_n_end: "advance_n (Suc n) x = advance (advance_n n x)"
  by (induction n arbitrary: x) simp_all

lemma seed_loop_closed:
  "d_idum (seed_loop n d) = advance_n (Suc n) (d_idum d)"
  "k \<le> n \<Longrightarrow> k < NTAB \<Longrightarrow>
     d_iv (seed_loop n d) (int k) = Some (advance_n (Suc n - k) (d_idum d))"
proof (induction n arbitrary: d)
  case 0
  { case 1 show ?case by (simp add: seed_body_simps) }
  { case 2 then show ?case by (simp add: seed_body_simps) }
next
  case (Suc n)
  { case 1 show ?case by (simp add: Suc.IH(1) seed_body_simps) }
  { case 2
    show ?case
    proof (cases "k = Suc n")
      case True
      have "d_iv (seed_loop (Suc n) d) (int (Suc n)) = d_iv (seed_body (Suc n) d) (int (Suc n))"
        using seed_loop_keeps [of n "Suc n" "seed_body (Suc n) d"] by simp
      with True 2 show ?thesis by (simp add: seed_body_simps)
    next
      case False
      with 2 have k: "k \<le> n" by simp
      from Suc.IH(2) [OF k 2(2), of "seed_body (Suc n) d"] k
      show ?thesis by (simp add: seed_body_simps Suc_diff_le)
    qed }
qed

lemma uniform_init_closed:
  assumes "\<lfloor>advance_n 40 (start_value s) / NDIV\<rfloor> = int j" and "j < 32"
  shows "fst (uniform d s True) =
           Num (if AM * advance_n (40 - j) (start_value s) > RNMX then RNMX
                else AM * advance_n (40 - j) (start_value s))"
    and "d_idum (snd (uniform d s True)) = advance_n 41 (start_value s)"
    and "k < 32 \<Longrightarrow> d_iv (snd (uniform d s True)) (int k) =
           Some (advance_n (if k = j then 41 else 40 - k) (start_value s))"
proof -
  define e where "e = d\<lparr>d_iv := clear_array (d_iv d), d_idum := start_value s\<rparr>"
  define d1 where "d1 = seed_loop (NTAB + 7) e"
  have i: "d_idum d1 = advance_n 40 (start_value s)"
    unfolding d1_def seed_loop_closed(1) by (simp add: e_def NTAB_def)
  have t: "d_iv d1 (int k) = Some (advance_n (40 - k) (start_value s))" if "k < 32" for k
    unfolding d1_def using that seed_loop_closed(2) [of k "NTAB + 7" e]
    by (simp add: e_def NTAB_def)
  have u: "uniform d s True =
     (Num (if AM * advance_n (40 - j) (start_value s) > RNMX then RNMX
           else AM * advance_n (40 - j) (start_value s)),
      d1\<lparr>d_idum := advance (d_idum d1), d_iv := (d_iv d1)(int j \<mapsto> advance (d_idum d1))\<rparr>)"
    unfolding uniform_def e_def [symmetric] d1_def [symmetric] Let_def
    using t [of 0] t [OF assms(2)] assms(1) by (simp add: i)
  have a: "advance (advance_n 40 (start_value s)) = advance_n 41 (start_value s)"
    using advance_n_end [of 40 "start_value s"] by simp
  show "fst (uniform d s True) =
           Num (if AM * advance_n (40 - j) (start_value s) > RNMX then RNMX
                else AM * advance_n (40 - j) (start_value s))"
    unfolding u by simp
  show "d_idum (snd (uniform d s True)) = advance_n 41 (start_value s)"
    unfolding u by (simp add: i a)
  show "d_iv (snd (uniform d s True)) (int k) =
           Some (advance_n (if k = j then 41 else 40 - k) (start_value s))" if "k < 32"
    unfolding u using t [OF that] by (simp add: i a)
qed

subsection \<open>Integer seeds below the modulus\<close>

text \<open>
  For every integer seed \<open>s\<close> with \<open>1 \<le> s \<le> 2147483646\<close>, the call
  \<open>uniform(s, true)\<close> followed by \<open>n\<close> calls \<open>uniform(s, false)\<close> returns
  \<open>n + 1\<close> numbers, each positive and at most \<open>RNMX\<close>, a constant below \<open>1\<close>; and the
  sequence is the same from every prior state \<open>d'\<close> of the instance as from \<open>d\<close>, so that
  seeding again with \<open>s\<close> replays it.
\<close>

theorem uniform_sequence_reproducible:
  fixes s :: int
  assumes "1 \<le> s" and "s \<le> 2147483646"
  shows "list_all in_open_unit (uniform_sequence d (Num (of_int s)) n)
         \<and> RNMX < 1
         \<and> length (uniform_sequence d (Num (of_int s)) n) = Suc n
         \<and> uniform_sequence d' (Num (of_int s)) n = uniform_sequence d (Num (of_int s)) n"
proof -
  let ?s = "Num (of_int s)"
  have r: "in_range (start_value ?s)" using assms by (rule start_value_int)
  from uniform_init_ok [OF r, of d]
  have a: "in_open_unit (fst (uniform d ?s True))" and b: "gen_ok (snd (uniform d ?s True))"
    by auto
  from uniform_init_eq [OF r, of d' d]
  have c: "fst (uniform d' ?s True) = fst (uniform d ?s True)"
    and e: "gen_eq (snd (uniform d' ?s True)) (snd (uniform d ?s True))"
    by auto
  have 1: "list_all in_open_unit (uniform_sequence d ?s n)"
    unfolding uniform_sequence_def using a uniform_calls_ok [OF b]
    by (simp add: case_prod_unfold Let_def)
  have 2: "length (uniform_sequence d ?s n) = Suc n"
    unfolding uniform_sequence_def by (simp add: case_prod_unfold Let_def uniform_calls_length)
  have 3: "uniform_sequence d' ?s n = uniform_sequence d ?s n"
    unfolding uniform_sequence_def using c uniform_calls_eq [OF e]
    by (simp add: case_prod_unfold Let_def)
  from 1 2 3 RNMX_less_1 show ?thesis by simp
qed

theorem uniform_sequence_reproducible_witness:
  "(1::int) \<le> 1001 \<and> (1001::int) \<le> 2147483646
   \<and> list_all in_open_unit (uniform_sequence Deviates_new (Num 1001) 3)
   \<and> RNMX < 1
   \<and> uniform_sequence (snd (uniform Deviates_new (Num 7) True)) (Num 1001) 3
       = uniform_sequence Deviates_new (Num 1001) 3"
  using uniform_sequence_reproducible [of 1001 Deviates_new 3 "snd (uniform Deviates_new (Num 7) True)"]
  by simp

subsection \<open>Claim C1\<close>

text \<open>
  C1: for every seed \<open>s \<ge> 1\<close>, \<open>uniform(s, true)\<close> followed by calls
  \<open>uniform(s, false)\<close> returns values strictly inside \<open>(0, 1)\<close>, as the doc comment of
  \<open>uniform\<close> promises (\<open>Uniform deviate in (0,1)\<close>). The code does not do so at the seed
  \<open>2147483647 = IM\<close>, which the guard \<open>isNaN(start) || start < 1\<close> lets through: the
  first congruential step maps it to \<open>16807 * 2836 - 2836 * 16807 = 0\<close>, the state stays
  \<open>0\<close>, and the seeding call and the two calls after it each return exactly \<open>0\<close>,
  which is not inside the open interval.
\<close>

theorem uniform_seed_IM_returns_zero:
  "(1::real) \<le> 2147483647
   \<and> uniform_sequence Deviates_new (Num 2147483647) 2 = [Num 0, Num 0, Num 0]
   \<and> \<not> list_all in_open_unit (uniform_sequence Deviates_new (Num 2147483647) 2)"
proof -
  have s: "start_value (Num 2147483647) = 2147483647" by (simp add: start_value_def)
  have a40: "advance_n 40 2147483647 = 0" by (simp add: advance_n_numeral advance_eval)
  have a41: "advance_n 41 2147483647 = 0" by (simp add: advance_n_numeral advance_eval)
  have j: "\<lfloor>advance_n 40 (start_value (Num 2147483647)) / NDIV\<rfloor> = int 0"
    by (simp add: s a40)
  note c = uniform_init_closed [OF j, unfolded s, simplified]
  have 1: "fst (uniform Deviates_new (Num 2147483647) True) = Num 0"
    using c(1) [of Deviates_new] by (simp add: a40 AM_def RNMX_def EPS_def)
  have 2: "d_idum (snd (uniform Deviates_new (Num 2147483647) True)) = 0"
    using c(2) [of Deviates_new] by (simp add: a41)
  have 3: "d_iv (snd (uniform Deviates_new (Num 2147483647) True)) 0 = Some 0"
    using c(3) [of 0 Deviates_new] by (simp add: a41)
  have e: "uniform_sequence Deviates_new (Num 2147483647) 2 = [Num 0, Num 0, Num 0]"
    by (simp add: uniform_sequence_def case_prod_unfold uniform_continue 1 2 3
        numeral_2_eq_2 advance_eval AM_def RNMX_def EPS_def)
  show ?thesis unfolding e by (simp add: in_open_unit_def)
qed

subsection \<open>Claim C8\<close>

text \<open>
  C8 fails on the code. \<open>iy\<close> is a local variable set to \<open>0\<close> at every call, so a call
  with \<open>init = false\<close> computes the slot \<open>floor(0 / NDIV) = 0\<close>: lemma
  \<open>uniform_continue\<close> above gives the call in that form for every state. At seed \<open>1\<close>
  the initialising call returns \<open>893351816 / IM\<close>, and the slot of that output is
  \<open>13\<close>, which holds \<open>197493099\<close>; the Bays-Durham scheme would return it next and
  overwrite slot \<open>13\<close>. The next call returns the content \<open>784558821\<close> of slot \<open>0\<close>,
  overwrites slot \<open>0\<close> with the new state and leaves slot \<open>13\<close> as it was.
\<close>

theorem uniform_continue_reads_slot_0:
  "fst (uniform Deviates_new (Num 1) True) = Num (893351816 / 2147483647)
   \<and> \<lfloor>893351816 / NDIV\<rfloor> = 13
   \<and> d_iv (snd (uniform Deviates_new (Num 1) True)) 13 = Some 197493099
   \<and> d_iv (snd (uniform Deviates_new (Num 1) True)) 0 = Some 784558821
   \<and> fst (uniform (snd (uniform Deviates_new (Num 1) True)) (Num 1) False)
       = Num (784558821 / 2147483647)
   \<and> d_iv (snd (uniform (snd (uniform Deviates_new (Num 1) True)) (Num 1) False)) 13
       = Some 197493099
   \<and> d_iv (snd (uniform (snd (uniform Deviates_new (Num 1) True)) (Num 1) False)) 0
       = Some (d_idum (snd (uniform (snd (uniform Deviates_new (Num 1) True)) (Num 1) False)))"
proof -
  let ?d1 = "snd (uniform Deviates_new (Num 1) True)"
  have s: "start_value (Num 1) = 1" by (simp add: start_value_def)
  have a40: "advance_n 40 1 = 784558821" by (simp add: advance_n_numeral advance_eval)
  have a29: "advance_n 29 1 = 893351816" by (simp add: advance_n_numeral advance_eval)
  have a27: "advance_n 27 1 = 197493099" by (simp add: advance_n_numeral advance_eval)
  have j: "\<lfloor>advance_n 40 (start_value (Num 1)) / NDIV\<rfloor> = int 11"
    by (simp add: s a40 NDIV_def IM_def NTAB_def)
  note c = uniform_init_closed [OF j, unfolded s, simplified]
  have 1: "fst (uniform Deviates_new (Num 1) True) = Num (893351816 / 2147483647)"
    using c(1) [of Deviates_new] by (simp add: a29 AM_def IM_def RNMX_def EPS_def)
  have 2: "\<lfloor>893351816 / NDIV\<rfloor> = 13"
    by (simp add: NDIV_def IM_def NTAB_def)
  have 3: "d_iv ?d1 13 = Some 197493099"
    using c(3) [of 13 Deviates_new] by (simp add: a27)
  have 4: "d_iv ?d1 0 = Some 784558821"
    using c(3) [of 0 Deviates_new] by (simp add: a40)
  have 5: "fst (uniform ?d1 (Num 1) False) = Num (784558821 / 2147483647)"
    unfolding uniform_continue by (simp add: 4 AM_def IM_def RNMX_def EPS_def)
  have 6: "d_iv (snd (uniform ?d1 (Num 1) False)) 13 = Some 197493099"
    unfolding uniform_continue by (simp add: 3)
  have 7: "d_iv (snd (uniform ?d1 (Num 1) False)) 0
             = Some (d_idum (snd (uniform ?d1 (Num 1) False)))"
    unfolding uniform_continue by simp
  from 1 2 3 4 5 6 7 show ?thesis by blast
qed


section \<open>Theorems: the resampler\<close>

subsection \<open>The index of a deviate in the open unit interval\<close>


lemma index_value_whole:
  assumes "in_open_unit r" and "0 < n"
  shows "\<exists>k. index_value n r = Some (Whole k) \<and> sample_index n r = Some k
             \<and> 0 \<le> k \<and> k < int n"
proof -
  from assms(1) obtain v where r: "r = Num v" and v: "0 < v" "v \<le> RNMX"
    unfolding in_open_unit_def by (cases r) auto
  have v1: "v < 1" using v(2) RNMX_less_1 by simp
  define w where "w = real n - 1 + 499 / 1000 - (- (499 / 1000))"
  have w: "w = real n - 2 / 1000" by (simp add: w_def)
  have wpos: "0 < w" using assms(2) unfolding w by simp
  define x where "x = - (499 / 1000) + v * w"
  have lo: "- (499 / 1000) < x" unfolding x_def using v(1) wpos by simp
  have "v * w < 1 * w" using v1 wpos by (intro mult_strict_right_mono) auto
  then have hi: "x < real n - 501 / 1000" unfolding x_def w by simp
  have 0: "0 \<le> Math_round x" unfolding Math_round_def using lo by (simp add: le_floor_iff)
  have 1: "Math_round x < int n"
    unfolding Math_round_def using hi by (simp add: floor_less_iff)
  have ri: "rounded_index n v = Math_round_signed x"
    unfolding rounded_index_def x_def w_def
    by (simp add: Let_def Math_floor_signed_def split: js_integer.split)
  have "Math_abs_signed (Math_round_signed x) = Whole (Math_round x)"
  proof (cases "x < 0 \<and> - (1 / 2) \<le> x")
    case True
    then have "Math_round x = 0" unfolding Math_round_def by (simp add: floor_eq_iff)
    with True show ?thesis by (simp add: Math_round_signed_def Math_abs_signed_def)
  next
    case False
    then have "Math_round_signed x = Whole (Math_round x)"
      unfolding Math_round_signed_def by (rule if_not_P)
    with 0 show ?thesis by (simp add: Math_abs_signed_def)
  qed
  then have "index_value n r = Some (Whole (Math_round x))"
    by (simp add: index_value_def r ri)
  moreover from this have "sample_index n r = Some (Math_round x)"
    unfolding sample_index_def by (simp add: value_of_def)
  ultimately show ?thesis using 0 1 by blast
qed

lemma sample_index_in_bounds:
  assumes "in_open_unit r" and "0 < n"
  shows "\<exists>k. sample_index n r = Some k \<and> 0 \<le> k \<and> k < int n"
  using index_value_whole [OF assms] by blast

lemma draw_step:
  assumes "gen_ok d" and "0 < n"
  shows "gen_ok (snd (uniform d s False))
         \<and> (\<exists>k<n. sample_index n (fst (uniform d s False)) = Some (int k))"
proof -
  from uniform_continue_ok [OF assms(1), of s]
  have u: "in_open_unit (fst (uniform d s False))" and g: "gen_ok (snd (uniform d s False))"
    by auto
  from sample_index_in_bounds [OF u assms(2)] obtain k where
    k: "sample_index n (fst (uniform d s False)) = Some k" "0 \<le> k" "k < int n" by blast
  then have "nat k < n" "sample_index n (fst (uniform d s False)) = Some (int (nat k))" by auto
  with g show ?thesis by blast
qed

lemma array_read_nat: "k < length data \<Longrightarrow> array_read data (Some (int k)) = Some (data ! k)"
  by (simp add: array_read_def)

lemma copies_of_snoc:
  "copies_of data out \<Longrightarrow> k < length data \<Longrightarrow> copies_of data (out @ [Some (data ! k)])"
  unfolding copies_of_def by auto

lemma pairs_of_snoc:
  assumes "pairs_of x y out" and "k < length x" and "length y = length x"
  shows "pairs_of x y (out\<lparr>sample_x := sample_x out @ [Some (x ! k)],
                           sample_y := sample_y out @ [Some (y ! k)]\<rparr>)"
proof -
  have "(x ! k, y ! k) \<in> set (zip x y)"
    using assms(2,3) by (metis in_set_zip fst_conv snd_conv)
  then have "(Some (x ! k), Some (y ! k)) \<in> (\<lambda>(a, b). (Some a, Some b)) ` set (zip x y)"
    by force
  then show ?thesis using assms(1) unfolding pairs_of_def by auto
qed

lemma draw_set1D_ok:
  assumes "data \<noteq> []"
  shows "gen_ok d \<Longrightarrow> copies_of data out \<Longrightarrow>
         gen_ok (snd (draw_set1D data c d out))
         \<and> copies_of data (fst (draw_set1D data c d out))
         \<and> length (fst (draw_set1D data c d out)) = length out + c"
proof (induction c arbitrary: d out)
  case 0
  then show ?case by simp
next
  case (Suc c)
  have n: "0 < length data" using assms by simp
  from draw_step [OF Suc.prems(1) n, of "Num 1001"] obtain k where
    g: "gen_ok (snd (uniform d (Num 1001) False))" and
    k: "k < length data" "sample_index (length data) (fst (uniform d (Num 1001) False)) = Some (int k)"
    by blast
  have c: "copies_of data (out @ [Some (data ! k)])"
    using Suc.prems(2) k(1) by (rule copies_of_snoc)
  from Suc.IH [OF g c] show ?case
    by (simp add: case_prod_unfold Let_def k array_read_nat)
qed

lemma draw_sets1D_ok:
  assumes "data \<noteq> []"
  shows "gen_ok d \<Longrightarrow>
         gen_ok (snd (draw_sets1D data c d))
         \<and> length (fst (draw_sets1D data c d)) = c
         \<and> (\<forall>s\<in>set (fst (draw_sets1D data c d)). length s = length data \<and> copies_of data s)"
proof (induction c arbitrary: d)
  case 0
  then show ?case by simp
next
  case (Suc c)
  have e: "copies_of data []" by (simp add: copies_of_def)
  from draw_set1D_ok [OF assms Suc.prems e, of "length data"]
  have g: "gen_ok (snd (draw_set1D data (length data) d []))"
    and s: "copies_of data (fst (draw_set1D data (length data) d []))"
      "length (fst (draw_set1D data (length data) d [])) = length data"
    by auto
  from Suc.IH [OF g] s show ?case
    by (simp add: case_prod_unfold Let_def)
qed

lemma draw_set2D_ok:
  assumes "x \<noteq> []" and "length y = length x"
  shows "gen_ok d \<Longrightarrow> pairs_of x y out \<Longrightarrow>
         gen_ok (snd (draw_set2D x y c d out))
         \<and> pairs_of x y (fst (draw_set2D x y c d out))
         \<and> length (sample_x (fst (draw_set2D x y c d out))) = length (sample_x out) + c"
proof (induction c arbitrary: d out)
  case 0
  then show ?case by simp
next
  case (Suc c)
  have n: "0 < length x" using assms by simp
  from draw_step [OF Suc.prems(1) n, of "Num 1001"] obtain k where
    g: "gen_ok (snd (uniform d (Num 1001) False))" and
    k: "k < length x" "sample_index (length x) (fst (uniform d (Num 1001) False)) = Some (int k)"
    by blast
  have ky: "k < length y" using k(1) assms(2) by simp
  have c: "pairs_of x y (out\<lparr>sample_x := sample_x out @ [Some (x ! k)],
                              sample_y := sample_y out @ [Some (y ! k)]\<rparr>)"
    using Suc.prems(2) k(1) assms(2) by (rule pairs_of_snoc)
  from Suc.IH [OF g c] show ?case
    by (simp add: case_prod_unfold Let_def k array_read_nat [OF k(1)] array_read_nat [OF ky])
qed

lemma draw_sets2D_ok:
  assumes "x \<noteq> []" and "length y = length x"
  shows "gen_ok d \<Longrightarrow>
         gen_ok (snd (draw_sets2D x y c d))
         \<and> length (fst (draw_sets2D x y c d)) = c
         \<and> (\<forall>s\<in>set (fst (draw_sets2D x y c d)).
               length (sample_x s) = length x \<and> pairs_of x y s)"
proof (induction c arbitrary: d)
  case 0
  then show ?case by simp
next
  case (Suc c)
  have e: "pairs_of x y \<lparr>sample_x = [], sample_y = []\<rparr>" by (simp add: pairs_of_def)
  from draw_set2D_ok [OF assms Suc.prems e, of "length x"]
  have g: "gen_ok (snd (draw_set2D x y (length x) d \<lparr>sample_x = [], sample_y = []\<rparr>))"
    and s: "pairs_of x y (fst (draw_set2D x y (length x) d \<lparr>sample_x = [], sample_y = []\<rparr>))"
      "length (sample_x (fst (draw_set2D x y (length x) d \<lparr>sample_x = [], sample_y = []\<rparr>))) = length x"
    by auto
  from Suc.IH [OF g] s show ?case
    by (simp add: case_prod_unfold Let_def)
qed

lemma seed_1001_ok: "gen_ok (snd (uniform d (Num 1001) True))"
proof -
  have "in_range (start_value (Num 1001))"
    unfolding start_value_def in_range_alt by (auto intro: exI [of _ 1001])
  from uniform_init_ok [OF this] show ?thesis by simp
qed

text \<open>Without replacement: what a returning loop has stored.\<close>

lemma fill_set1D_ok:
  assumes r: "fill_set1D data m d tmp sampled = Some res"
  shows "data \<noteq> [] \<longrightarrow> gen_ok d \<longrightarrow> copies_of data tmp \<longrightarrow>
         gen_ok (fst (snd res)) \<and> copies_of data (fst res)"
proof (rule fill_set1D.raw_induct
    [where P = "\<lambda>data m d tmp sampled res. data \<noteq> [] \<longrightarrow> gen_ok d \<longrightarrow> copies_of data tmp \<longrightarrow>
         gen_ok (fst (snd res)) \<and> copies_of data (fst res)", OF _ r], goal_cases)
  case (1 f data m d tmp sampled res)
  show ?case
  proof (intro impI)
    assume ne: "data \<noteq> []" and g: "gen_ok d" and c: "copies_of data tmp"
    show "gen_ok (fst (snd res)) \<and> copies_of data (fst res)"
    proof (cases "js_lt (Num (real (length tmp))) m")
      case False
      with 1(2) g c show ?thesis by auto
    next
      case True
      have n: "0 < length data" using ne by simp
      from draw_step [OF g n, of "Num 1001"] obtain k where
        g': "gen_ok (snd (uniform d (Num 1001) False))" and
        k: "k < length data"
          "sample_index (length data) (fst (uniform d (Num 1001) False)) = Some (int k)"
        by blast
      have c': "copies_of data (tmp @ [Some (data ! k)])" using c k(1) by (rule copies_of_snoc)
      show ?thesis
      proof (cases "Some (int k) \<in> sampled")
        case True
        with 1(2) \<open>js_lt (Num (real (length tmp))) m\<close>
        have "f data m (snd (uniform d (Num 1001) False)) tmp sampled = Some res"
          by (simp add: Let_def k)
        from 1(1) [OF this] ne g' c show ?thesis by blast
      next
        case False
        with 1(2) \<open>js_lt (Num (real (length tmp))) m\<close>
        have "f data m (snd (uniform d (Num 1001) False)) (tmp @ [Some (data ! k)])
                (insert (Some (int k)) sampled) = Some res"
          by (simp add: Let_def k array_read_nat [OF k(1)])
        from 1(1) [OF this] ne g' c' show ?thesis by blast
      qed
    qed
  qed
qed

lemma fill_sets1D_ok:
  assumes "data \<noteq> []"
  shows "fill_sets1D data m c d sampled = Some (out, d') \<Longrightarrow> gen_ok d \<Longrightarrow>
         (\<forall>s\<in>set out. copies_of data s)"
proof (induction c arbitrary: d sampled out d')
  case 0
  then show ?case by simp
next
  case (Suc c)
  from Suc.prems(1) obtain tmp d1 sampled1 rest where
    f: "fill_set1D data m d [] (clear_sampled sampled) = Some (tmp, d1, sampled1)"
    and r: "fill_sets1D data m c d1 sampled1 = Some (rest, d')"
    and o: "out = tmp # rest"
    by (auto split: option.splits)
  have e: "copies_of data []" by (simp add: copies_of_def)
  from fill_set1D_ok [OF f] assms Suc.prems(2) e
  have g: "gen_ok d1" and t: "copies_of data tmp" by auto
  from Suc.IH [OF r g] t o show ?case by simp
qed

lemma fill_set2D_ok:
  assumes r: "fill_set2D x y m d out sampled = Some res"
  shows "x \<noteq> [] \<longrightarrow> length y = length x \<longrightarrow> gen_ok d \<longrightarrow> pairs_of x y out \<longrightarrow>
         gen_ok (fst (snd res)) \<and> pairs_of x y (fst res)"
proof (rule fill_set2D.raw_induct
    [where P = "\<lambda>x y m d out sampled res. x \<noteq> [] \<longrightarrow> length y = length x \<longrightarrow> gen_ok d
         \<longrightarrow> pairs_of x y out \<longrightarrow> gen_ok (fst (snd res)) \<and> pairs_of x y (fst res)", OF _ r],
    goal_cases)
  case (1 f x y m d out sampled res)
  show ?case
  proof (intro impI)
    assume ne: "x \<noteq> []" and l: "length y = length x" and g: "gen_ok d" and c: "pairs_of x y out"
    show "gen_ok (fst (snd res)) \<and> pairs_of x y (fst res)"
    proof (cases "js_lt (Num (real (length (sample_x out)))) m")
      case False
      with 1(2) g c show ?thesis by auto
    next
      case True
      have n: "0 < length x" using ne by simp
      from draw_step [OF g n, of "Num 1001"] obtain k where
        g': "gen_ok (snd (uniform d (Num 1001) False))" and
        k: "k < length x"
          "sample_index (length x) (fst (uniform d (Num 1001) False)) = Some (int k)"
        by blast
      have ky: "k < length y" using k(1) l by simp
      have c': "pairs_of x y (out\<lparr>sample_x := sample_x out @ [Some (x ! k)],
                                   sample_y := sample_y out @ [Some (y ! k)]\<rparr>)"
        using c k(1) l by (rule pairs_of_snoc)
      show ?thesis
      proof (cases "Some (int k) \<in> sampled")
        case True
        with 1(2) \<open>js_lt (Num (real (length (sample_x out)))) m\<close>
        have "f x y m (snd (uniform d (Num 1001) False)) out sampled = Some res"
          by (simp add: Let_def k)
        from 1(1) [OF this] ne l g' c show ?thesis by blast
      next
        case False
        with 1(2) \<open>js_lt (Num (real (length (sample_x out)))) m\<close>
        have "f x y m (snd (uniform d (Num 1001) False))
                (out\<lparr>sample_x := sample_x out @ [Some (x ! k)],
                     sample_y := sample_y out @ [Some (y ! k)]\<rparr>)
                (insert (Some (int k)) sampled) = Some res"
          by (simp add: Let_def k array_read_nat [OF k(1)] array_read_nat [OF ky])
        from 1(1) [OF this] ne l g' c' show ?thesis by blast
      qed
    qed
  qed
qed

lemma fill_sets2D_ok:
  assumes "x \<noteq> []" and "length y = length x"
  shows "fill_sets2D x y m c d sampled = Some (out, d') \<Longrightarrow> gen_ok d \<Longrightarrow>
         (\<forall>s\<in>set out. pairs_of x y s)"
proof (induction c arbitrary: d sampled out d')
  case 0
  then show ?case by simp
next
  case (Suc c)
  from Suc.prems(1) obtain s d1 sampled1 rest where
    f: "fill_set2D x y m d \<lparr>sample_x = [], sample_y = []\<rparr> (clear_sampled sampled)
          = Some (s, d1, sampled1)"
    and r: "fill_sets2D x y m c d1 sampled1 = Some (rest, d')"
    and o: "out = s # rest"
    by (auto split: option.splits)
  have e: "pairs_of x y \<lparr>sample_x = [], sample_y = []\<rparr>" by (simp add: pairs_of_def)
  from fill_set2D_ok [OF f] assms Suc.prems(2) e
  have g: "gen_ok d1" and t: "pairs_of x y s" by auto
  from Suc.IH [OF r g] t o show ?case by simp
qed

lemma fill_sets1D_length:
  "fill_sets1D data m c d sampled = Some (out, d') \<Longrightarrow> length out = c"
  by (induction c arbitrary: d sampled out d') (auto split: option.splits)

lemma fill_sets2D_length:
  "fill_sets2D x y m c d sampled = Some (out, d') \<Longrightarrow> length out = c"
  by (induction c arbitrary: d sampled out d') (auto split: option.splits)

lemma loop_count_default_pos:
  assumes "0 < n"
  shows "0 < loop_count (numSets_default n numSets)"
proof -
  have n: "0 < loop_count (Num (real n))" using assms by (simp add: loop_count_def)
  have r: "0 < loop_count (Num (of_int (Math_round v)))" if "\<not> v < 1" for v
  proof -
    from that have "1 \<le> Math_round v" unfolding Math_round_def by (simp add: le_floor_iff)
    then show ?thesis by (simp add: loop_count_def)
  qed
  show ?thesis
  proof (cases numSets)
    case None
    with n show ?thesis by (simp add: numSets_default_def)
  next
    case (Some a)
    show ?thesis
    proof (cases a)
      case NaN
      with Some n show ?thesis by (simp add: numSets_default_def)
    next
      case (Num v)
      with Some n r [of v] show ?thesis by (simp add: numSets_default_def)
    qed
  qed
qed

subsection \<open>The shared generator after its seeding with 1001\<close>

lemma seed_1001_state:
  "fst (uniform d (Num 1001) True) = Num (1515875200 / 2147483647)"
  "d_idum (snd (uniform d (Num 1001) True)) = 614018158"
  "d_iv (snd (uniform d (Num 1001) True)) 0 = Some 1511848666"
proof -
  have s: "start_value (Num 1001) = 1001" by (simp add: start_value_def)
  have a40: "advance_n 40 1001 = 1511848666" by (simp add: advance_n_numeral advance_eval)
  have a41: "advance_n 41 1001 = 614018158" by (simp add: advance_n_numeral advance_eval)
  have a18: "advance_n 18 1001 = 1515875200" by (simp add: advance_n_numeral advance_eval)
  have j: "\<lfloor>advance_n 40 (start_value (Num 1001)) / NDIV\<rfloor> = int 22"
    by (simp add: s a40 NDIV_def IM_def NTAB_def)
  note c = uniform_init_closed [OF j, unfolded s, simplified]
  show "fst (uniform d (Num 1001) True) = Num (1515875200 / 2147483647)"
    using c(1) [of d] by (simp add: a18 AM_def IM_def RNMX_def EPS_def)
  show "d_idum (snd (uniform d (Num 1001) True)) = 614018158"
    using c(2) [of d] by (simp add: a41)
  show "d_iv (snd (uniform d (Num 1001) True)) 0 = Some 1511848666"
    using c(3) [of 0 d] by (simp add: a40)
qed

lemmas eval_consts = advance_def IA_def IM_def IQ_def IR_def AM_def RNMX_def EPS_def
  sample_index_def index_value_def rounded_index_def value_of_def Math_round_def
  Math_round_signed_def Math_floor_signed_def Math_abs_signed_def array_read_def Let_def

subsection \<open>Claim C2\<close>

text \<open>
  C2: the shared generator, once seeded with \<open>1001\<close> as each operation does first,
  returns on every further call a deviate that is positive and at most \<open>RNMX\<close>. For a
  non-empty dataset of length \<open>n\<close> the variable \<open>index\<close> computed from such a deviate
  is, after \<open>Math.abs\<close>, a whole number between \<open>0\<close> and \<open>n - 1\<close> and never the
  negative zero that \<open>Math.round\<close> can leave. The two operations with replacement return
  as many sets as \<open>numSets\<close> resolves to (at least one in two dimensions), each of
  exactly \<open>n\<close> elements, every element a copy of an input value (in two dimensions, of
  an input pair). When one of the two operations without replacement returns, it returns
  that many sets too, and every element of every set is a copy of an input value, so no
  read left the bounds.
\<close>

theorem resampled_indices_in_bounds:
  assumes "data \<noteq> []" and "x \<noteq> []"
  shows "gen_ok (snd (uniform d (Num 1001) True))
       \<and> (\<forall>g. gen_ok g \<longrightarrow> in_open_unit (fst (uniform g (Num 1001) False))
                            \<and> gen_ok (snd (uniform g (Num 1001) False)))
       \<and> (\<forall>r. in_open_unit r \<longrightarrow>
            (\<exists>k. index_value (length data) r = Some (Whole k)
                 \<and> sample_index (length data) r = Some k
                 \<and> 0 \<le> k \<and> k < int (length data)))
       \<and> length (fst (get1DSamplesWithReplacement d (Some data) numSets))
            = loop_count (numSets_1D_with (length data) numSets)
       \<and> (\<forall>s\<in>set (fst (get1DSamplesWithReplacement d (Some data) numSets)).
            length s = length data \<and> copies_of data s)
       \<and> 0 < loop_count (numSets_default (length x) numSets)
       \<and> (length y = length x \<longrightarrow>
            length (fst (get2DSamplesWithReplacement d (Some x) (Some y) numSets))
              = loop_count (numSets_default (length x) numSets))
       \<and> (\<forall>s\<in>set (fst (get2DSamplesWithReplacement d (Some x) (Some y) numSets)).
            length (sample_x s) = length x \<and> length (sample_y s) = length x \<and> pairs_of x y s)
       \<and> (\<forall>out d'. get1DSamplesWithoutReplacement d (Some data) m numSets = Some (out, d')
            \<longrightarrow> length out = loop_count (numSets_default (length data) numSets)
                \<and> (\<forall>s\<in>set out. copies_of data s))
       \<and> (\<forall>out d'. get2DSamplesWithoutReplacement d (Some x) (Some y) m numSets = Some (out, d')
            \<longrightarrow> (length y = length x \<longrightarrow>
                   length out = loop_count (numSets_default (length x) numSets))
                \<and> (\<forall>s\<in>set out. pairs_of x y s))"
proof -
  let ?d0 = "snd (uniform d (Num 1001) True)"
  have 1: "gen_ok ?d0" by (rule seed_1001_ok)
  have 2: "\<forall>g. gen_ok g \<longrightarrow> in_open_unit (fst (uniform g (Num 1001) False))
                            \<and> gen_ok (snd (uniform g (Num 1001) False))"
    using uniform_continue_ok by blast
  have 3: "\<forall>r. in_open_unit r \<longrightarrow>
            (\<exists>k. index_value (length data) r = Some (Whole k)
                 \<and> sample_index (length data) r = Some k
                 \<and> 0 \<le> k \<and> k < int (length data))"
    using assms(1) index_value_whole [of _ "length data"] by simp
  let ?c1 = "loop_count (numSets_1D_with (length data) numSets)"
  have e1: "get1DSamplesWithReplacement d (Some data) numSets = draw_sets1D data ?c1 ?d0"
    unfolding get1DSamplesWithReplacement_def using assms(1)
    by (simp add: case_prod_unfold Let_def)
  from draw_sets1D_ok [OF assms(1) 1, of ?c1]
  have 4: "length (fst (get1DSamplesWithReplacement d (Some data) numSets)) = ?c1"
    and 5: "\<forall>s\<in>set (fst (get1DSamplesWithReplacement d (Some data) numSets)).
            length s = length data \<and> copies_of data s"
    unfolding e1 by auto
  let ?c = "loop_count (numSets_default (length x) numSets)"
  have 6: "0 < ?c" using assms(2) by (intro loop_count_default_pos) simp
  have e2: "get2DSamplesWithReplacement d (Some x) (Some y) numSets = draw_sets2D x y ?c ?d0"
    if l: "length y = length x"
    unfolding get2DSamplesWithReplacement_def using assms(2) l
    by (simp add: case_prod_unfold Let_def)
  have 7: "length (fst (get2DSamplesWithReplacement d (Some x) (Some y) numSets)) = ?c"
    if l: "length y = length x"
    using draw_sets2D_ok [OF assms(2) l 1, of ?c] unfolding e2 [OF l] by simp
  have p8: "\<forall>s\<in>set (fst (get2DSamplesWithReplacement d (Some x) (Some y) numSets)).
            length (sample_x s) = length x \<and> length (sample_y s) = length x \<and> pairs_of x y s"
    if l: "length y = length x"
    using draw_sets2D_ok [OF assms(2) l 1, of ?c] l unfolding e2 [OF l]
    by (auto simp: pairs_of_def)
  have 8: "\<forall>s\<in>set (fst (get2DSamplesWithReplacement d (Some x) (Some y) numSets)).
            length (sample_x s) = length x \<and> length (sample_y s) = length x \<and> pairs_of x y s"
  proof (cases "length y = length x")
    case True
    then show ?thesis by (rule p8)
  next
    case False
    then show ?thesis unfolding get2DSamplesWithReplacement_def by simp
  qed
  have 9: "length out = loop_count (numSets_default (length data) numSets)
             \<and> (\<forall>s\<in>set out. copies_of data s)"
    if a: "get1DSamplesWithoutReplacement d (Some data) m numSets = Some (out, d')" for out d'
  proof -
    from a have f: "fill_sets1D data (sampleSize_1D (length data) m)
               (loop_count (numSets_default (length data) numSets)) ?d0 {} = Some (out, d')"
      unfolding get1DSamplesWithoutReplacement_def using assms(1)
      by (simp add: case_prod_unfold Let_def)
    from fill_sets1D_ok [OF assms(1) f 1] fill_sets1D_length [OF f] show ?thesis by simp
  qed
  have 10: "(length y = length x \<longrightarrow> length out = ?c) \<and> (\<forall>s\<in>set out. pairs_of x y s)"
    if a: "get2DSamplesWithoutReplacement d (Some x) (Some y) m numSets = Some (out, d')"
    for out d'
  proof (cases "length y = length x")
    case False
    with a assms(2) have "out = []"
      unfolding get2DSamplesWithoutReplacement_def by simp
    with False show ?thesis by simp
  next
    case True
    with a have f: "fill_sets2D x y (sampleSize_2D (length x) m) ?c ?d0 {} = Some (out, d')"
      unfolding get2DSamplesWithoutReplacement_def using assms(2)
      by (simp add: case_prod_unfold Let_def)
    from fill_sets2D_ok [OF assms(2) True f 1] fill_sets2D_length [OF f] show ?thesis by simp
  qed
  from 1 2 3 4 5 6 7 8 9 10 show ?thesis by blast
qed

theorem resampled_indices_in_bounds_witness:
  "[10, 20] \<noteq> ([] :: real list)
   \<and> in_open_unit (Num (1 / 10))
   \<and> rounded_index (length [10, 20 :: real]) (1 / 10) = MinusZero
   \<and> index_value (length [10, 20 :: real]) (Num (1 / 10)) = Some (Whole 0)
   \<and> (\<exists>k. index_value (length [10, 20 :: real]) (Num (1 / 10)) = Some (Whole k)
          \<and> sample_index (length [10, 20 :: real]) (Num (1 / 10)) = Some k \<and> 0 \<le> k \<and> k < 2)
   \<and> loop_count (numSets_default (length [10, 20 :: real]) (Some (Num 1))) = 1
   \<and> fst (get1DSamplesWithReplacement Deviates_new (Some [10, 20]) (Some (Num 1)))
        = [[Some 20, Some 20]]
   \<and> list_all (\<lambda>s. length s = 2 \<and> copies_of [10, 20] s)
        (fst (get1DSamplesWithReplacement Deviates_new (Some [10, 20]) (Some (Num 1))))
   \<and> fst (get2DSamplesWithReplacement Deviates_new (Some [10, 20]) (Some [30, 40])
            (Some (Num 1)))
        = [\<lparr>sample_x = [Some 20, Some 20], sample_y = [Some 40, Some 40]\<rparr>]
   \<and> list_all (\<lambda>s. length (sample_x s) = 2 \<and> length (sample_y s) = 2
                   \<and> pairs_of [10, 20] [30, 40] s)
        (fst (get2DSamplesWithReplacement Deviates_new (Some [10, 20]) (Some [30, 40])
               (Some (Num 1))))
   \<and> (\<exists>out d'. get1DSamplesWithoutReplacement Deviates_new (Some [10, 20]) (Some (Num 1))
                  (Some (Num 1)) = Some (out, d')
          \<and> out = [[Some 20]] \<and> length out = 1 \<and> list_all (copies_of [10, 20]) out)
   \<and> (\<exists>out d'. get2DSamplesWithoutReplacement Deviates_new (Some [10, 20]) (Some [30, 40])
                  (Some (Num 1)) (Some (Num 1)) = Some (out, d')
          \<and> out = [\<lparr>sample_x = [Some 20], sample_y = [Some 40]\<rparr>] \<and> length out = 1
          \<and> list_all (pairs_of [10, 20] [30, 40]) out)"
proof -
  note t = resampled_indices_in_bounds
    [where data = "[10, 20]" and x = "[10, 20]" and y = "[30, 40]" and d = Deviates_new
       and numSets = "Some (Num 1)" and m = "Some (Num 1)"]
  have u: "in_open_unit (Num (1 / 10))"
    by (simp add: in_open_unit_def RNMX_def EPS_def)
  have z: "rounded_index (length [10, 20 :: real]) (1 / 10) = MinusZero"
    by (simp add: rounded_index_def Math_round_signed_def Math_floor_signed_def)
  have i: "index_value (length [10, 20 :: real]) (Num (1 / 10)) = Some (Whole 0)"
    by (simp add: index_value_def rounded_index_def Math_round_signed_def
        Math_floor_signed_def Math_abs_signed_def)
  have c: "loop_count (numSets_default (length [10, 20 :: real]) (Some (Num 1))) = 1"
    by (simp add: numSets_default_def loop_count_def Math_round_def)
  have a1: "fst (get1DSamplesWithReplacement Deviates_new (Some [10, 20]) (Some (Num 1)))
        = [[Some 20, Some 20]]"
    by (simp add: get1DSamplesWithReplacement_def numSets_1D_with_def loop_count_def
        case_prod_unfold uniform_continue seed_1001_state eval_consts)
  have a2: "fst (get2DSamplesWithReplacement Deviates_new (Some [10, 20]) (Some [30, 40])
              (Some (Num 1)))
        = [\<lparr>sample_x = [Some 20, Some 20], sample_y = [Some 40, Some 40]\<rparr>]"
    by (simp add: get2DSamplesWithReplacement_def numSets_default_def loop_count_def
        case_prod_unfold uniform_continue seed_1001_state eval_consts)
  have b1: "map_option fst (get1DSamplesWithoutReplacement Deviates_new (Some [10, 20])
             (Some (Num 1)) (Some (Num 1))) = Some [[Some 20]]"
    by (simp add: get1DSamplesWithoutReplacement_def sampleSize_1D_def numSets_default_def
        loop_count_def clear_sampled_def js_lt_def fill_set1D.simps
        case_prod_unfold uniform_continue seed_1001_state eval_consts)
  have b2: "map_option fst (get2DSamplesWithoutReplacement Deviates_new (Some [10, 20])
             (Some [30, 40]) (Some (Num 1)) (Some (Num 1)))
           = Some [\<lparr>sample_x = [Some 20], sample_y = [Some 40]\<rparr>]"
    by (simp add: get2DSamplesWithoutReplacement_def sampleSize_2D_def numSets_default_def
        loop_count_def clear_sampled_def js_lt_def fill_set2D.simps
        case_prod_unfold uniform_continue seed_1001_state eval_consts)
  from b1 obtain d1 where b1': "get1DSamplesWithoutReplacement Deviates_new (Some [10, 20])
             (Some (Num 1)) (Some (Num 1)) = Some ([[Some 20]], d1)"
    by auto
  from b2 obtain d2 where b2': "get2DSamplesWithoutReplacement Deviates_new (Some [10, 20])
             (Some [30, 40]) (Some (Num 1)) (Some (Num 1))
           = Some ([\<lparr>sample_x = [Some 20], sample_y = [Some 40]\<rparr>], d2)"
    by auto
  show ?thesis
    using t u z i c a1 a2 b1' b2' by (simp add: list_all_iff sample_index_def value_of_def)
qed

subsection \<open>Claim C5\<close>

text \<open>
  C5 fails on the code in two dimensions. \<open>get2DSamplesWithoutReplacement\<close> tests
  \<open>m == undefined || m < 1 || m > n\<close> with no \<open>isNaN(m)\<close> and no rounding, where
  \<open>get1DSamplesWithoutReplacement\<close> and \<open>subbagFit\<close> have both. For \<open>m = NaN\<close> both
  comparisons are false, \<open>m\<close> stays \<open>NaN\<close>, the test \<open>length < m\<close> of the loop is false
  at once and every set is empty: on four points the set has \<open>0\<close> elements where the
  claim, and the one-dimensional operation on the same input, give \<open>floor(4 / 2) = 2\<close>.
\<close>

theorem sampleSize_2D_NaN_not_defaulted:
  "map_option fst (get2DSamplesWithoutReplacement Deviates_new
       (Some [1, 2, 3, 4]) (Some [1, 2, 3, 4]) (Some NaN) (Some (Num 1)))
     = Some [\<lparr>sample_x = [], sample_y = []\<rparr>]
   \<and> map_option fst (get1DSamplesWithoutReplacement Deviates_new
       (Some [1, 2, 3, 4]) (Some NaN) (Some (Num 1)))
     = Some [[Some 3, Some 2]]"
  by (simp add: get2DSamplesWithoutReplacement_def get1DSamplesWithoutReplacement_def
      sampleSize_2D_def sampleSize_1D_def numSets_default_def
      loop_count_def clear_sampled_def js_lt_def fill_set2D.simps fill_set1D.simps
      case_prod_unfold uniform_continue seed_1001_state eval_consts)


section \<open>Theorems: the linear estimator\<close>

lemma LLSQ_fit_degenerate:
  "length xs < 3 \<Longrightarrow> LLSQ_fit (Some xs) y = Inr LLSQ_zero"
  "length ys \<noteq> length xs \<Longrightarrow> LLSQ_fit (Some xs) (Some ys) = Inr LLSQ_zero"
  by (simp_all add: LLSQ_fit_def)

subsection \<open>Claim C3\<close>

text \<open>
  C3 fails on the code for null arrays. \<open>fit\<close> has no null check: its first statement
  reads \<open>_x.length\<close>, and with three or more points the guard reads \<open>_y.length\<close>, so
  \<open>fit(null, [1, 2, 3])\<close> and \<open>fit([1, 2, 3], null)\<close> throw a \<open>TypeError\<close> where
  the claim, the comment of \<open>fit\<close> (invalid inputs result in a fit to the origin) and
  the guards \<open>!x || !y\<close> of the polynomial and bagged estimators give the zero result.
  For arrays that are not null, lemma \<open>LLSQ_fit_degenerate\<close> gives the zero result on
  fewer than three points and on lengths that differ.
\<close>

theorem LLSQ_fit_null_throws:
  "LLSQ_fit None (Some [1, 2, 3]) = Inl TypeError
   \<and> LLSQ_fit (Some [1, 2, 3]) None = Inl TypeError"
  by (simp add: LLSQ_fit_def)

lemmas number_ops = nadd_def nsub_def nmul_def ndiv_def nsqrt_def nsum_def

subsection \<open>Claim C6\<close>

text \<open>
  C6: on the points \<open>(0, 1), (1, 3), (2, 5), (3, 7)\<close> of the line \<open>2 x + 1\<close> the fit
  returns slope \<open>a = 2\<close>, intercept \<open>b = 1\<close>, \<open>r = 1\<close> and \<open>chi2 = 0\<close>, in exact
  arithmetic; both standard errors are \<open>0\<close>.
\<close>

theorem LLSQ_fit_exact_line:
  "LLSQ_fit (Some [0, 1, 2, 3]) (Some [1, 3, 5, 7]) =
     Inr \<lparr>res_a = Num 2, res_b = Num 1, res_siga = Num 0, res_sigb = Num 0,
          res_chi2 = Num 0, res_r = Num 1\<rparr>"
  by (simp add: LLSQ_fit_def LLSQ_compute_def number_ops Let_def)


section \<open>Theorems: the polynomial estimator\<close>

subsection \<open>Claim C7\<close>

text \<open>
  C7: on an instance as the constructor leaves it, before any \<open>fit\<close>, \<open>eval(x)\<close>
  returns \<open>0\<close> for every \<open>x\<close> (also for \<open>NaN\<close>).
\<close>

theorem Pllsq_eval_before_fit: "Pllsq_eval Pllsq_new x = Num 0"
  by (simp add: Pllsq_eval_def Pllsq_new_def)

subsection \<open>Claim C4\<close>

lemma normal_equations_dims:
  "length (fst (normal_equations xs ys k)) = k"
  "length (snd (normal_equations xs ys k)) = k"
  "\<forall>row\<in>set (fst (normal_equations xs ys k)). length row = k"
  by (auto simp: normal_equations_def Let_def)

lemma coefficient_count_round:
  "1 \<le> v \<Longrightarrow> coefficient_count (Num v) = nat (Math_round v) + 1"
proof -
  assume v: "1 \<le> v"
  then have "0 \<le> Math_round v" unfolding Math_round_def by (simp add: le_floor_iff)
  with v show ?thesis by (simp add: coefficient_count_def nat_add_distrib)
qed

text \<open>
  C4 as stated does not hold: the order is rounded to the nearest integer, not down. For
  the order \<open>3 / 2\<close>, whose floor is \<open>1\<close>, three points are more than \<open>1 + 1\<close>, yet the
  code returns the empty result; on four points it fits three coefficients, a polynomial
  of order \<open>2\<close>. (The solver, which is outside the sources, is replaced here by a function
  returning a list as long as the system.)
\<close>

theorem Pllsq_fit_order_counterexample:
  "Pllsq_fit (\<lambda>a b. Inr b) Pllsq_new (Some [0, 1, 2]) (Some [1, 3, 5]) (Num (3 / 2))
     = Inr (Pllsq_empty, Pllsq_new)
   \<and> nat \<lfloor>3 / 2 :: real\<rfloor> + 1 < length [0, 1, 2 :: real]
   \<and> map_sum id (\<lambda>(res, p'). (length (poly_coef res), p_n p'))
        (Pllsq_fit (\<lambda>a b. Inr b) Pllsq_new (Some [0, 1, 2, 3]) (Some [1, 3, 5, 7]) (Num (3 / 2)))
     = Inr (3, 3)"
proof -
  have c: "coefficient_count (Num (3 / 2)) = 3"
    by (simp add: coefficient_count_def Math_round_def)
  have 1: "Pllsq_fit (\<lambda>a b. Inr b) Pllsq_new (Some [0, 1, 2]) (Some [1, 3, 5]) (Num (3 / 2))
     = Inr (Pllsq_empty, Pllsq_new)"
    by (simp add: Pllsq_fit_def c)
  have 2: "nat \<lfloor>3 / 2 :: real\<rfloor> + 1 < length [0, 1, 2 :: real]" by simp
  have 3: "map_sum id (\<lambda>(res, p'). (length (poly_coef res), p_n p'))
        (Pllsq_fit (\<lambda>a b. Inr b) Pllsq_new (Some [0, 1, 2, 3]) (Some [1, 3, 5, 7]) (Num (3 / 2)))
     = Inr (3, 3)"
    using normal_equations_dims(2) [of "[0, 1, 2, 3]" "[1, 3, 5, 7]" 3]
    by (simp add: Pllsq_fit_def c case_prod_unfold Let_def)
  from 1 2 3 show ?thesis by blast
qed

text \<open>
  C4, amended: for an order \<open>v \<ge> 1\<close>, \<open>fit\<close> uses \<open>k = Math.round(v) + 1\<close>
  coefficients. A null \<open>x\<close> or \<open>y\<close>, or \<open>n \<le> k\<close> points, gives the result with no
  coefficient and \<open>rms = 0\<close>, leaves the instance as it was and throws nothing. With
  \<open>n > k\<close> points the solver is called on a \<open>k\<close> by \<open>k\<close> system; what it throws is
  thrown, and what it returns is the coefficient list of the result and of the instance.
  The default for an order that is \<open>NaN\<close> or below \<open>1\<close> is left out of the statement:
  the code sets the number of coefficients, not the order, to \<open>1\<close>, against its own
  comment (defaults to 1 for invalid inputs).
\<close>

theorem Pllsq_fit_guard:
  assumes "1 \<le> v"
  shows "coefficient_count (Num v) = nat (Math_round v) + 1
     \<and> Pllsq_fit solve p None y (Num v) = Inr (Pllsq_empty, p)
     \<and> Pllsq_fit solve p x None (Num v) = Inr (Pllsq_empty, p)
     \<and> (length xs \<le> nat (Math_round v) + 1 \<longrightarrow>
          Pllsq_fit solve p (Some xs) (Some ys) (Num v) = Inr (Pllsq_empty, p))
     \<and> (nat (Math_round v) + 1 < length xs \<longrightarrow>
          (\<exists>a b. normal_equations xs ys (nat (Math_round v) + 1) = (a, b)
             \<and> length a = nat (Math_round v) + 1 \<and> length b = nat (Math_round v) + 1
             \<and> (\<forall>row\<in>set a. length row = nat (Math_round v) + 1)
             \<and> (\<forall>e. solve a b = Inl e \<longrightarrow>
                   Pllsq_fit solve p (Some xs) (Some ys) (Num v) = Inl e)
             \<and> (\<forall>c. solve a b = Inr c \<longrightarrow>
                   (\<exists>rms. Pllsq_fit solve p (Some xs) (Some ys) (Num v) =
                      Inr (\<lparr>poly_coef = c, poly_r = None, poly_rms = rms\<rparr>,
                           p\<lparr>p_c := c, p_n := nat (Math_round v) + 1\<rparr>)))))"
proof -
  define k where "k = nat (Math_round v) + 1"
  have cc: "coefficient_count (Num v) = k"
    unfolding k_def using assms by (rule coefficient_count_round)
  have 1: "Pllsq_fit solve p None y (Num v) = Inr (Pllsq_empty, p)"
    by (simp add: Pllsq_fit_def)
  have 2: "Pllsq_fit solve p x None (Num v) = Inr (Pllsq_empty, p)"
    by (simp add: Pllsq_fit_def split: option.split)
  have 3: "Pllsq_fit solve p (Some xs) (Some ys) (Num v) = Inr (Pllsq_empty, p)"
    if "length xs \<le> k"
    using that by (simp add: Pllsq_fit_def cc)
  have 4: "\<exists>a b. normal_equations xs ys k = (a, b)
             \<and> length a = k \<and> length b = k \<and> (\<forall>row\<in>set a. length row = k)
             \<and> (\<forall>e. solve a b = Inl e \<longrightarrow>
                   Pllsq_fit solve p (Some xs) (Some ys) (Num v) = Inl e)
             \<and> (\<forall>c. solve a b = Inr c \<longrightarrow>
                   (\<exists>rms. Pllsq_fit solve p (Some xs) (Some ys) (Num v) =
                      Inr (\<lparr>poly_coef = c, poly_r = None, poly_rms = rms\<rparr>,
                           p\<lparr>p_c := c, p_n := k\<rparr>)))"
    if "k < length xs"
  proof -
    obtain a b where ab: "normal_equations xs ys k = (a, b)" by (cases "normal_equations xs ys k")
    have d: "length a = k" "length b = k" "\<forall>row\<in>set a. length row = k"
      using normal_equations_dims [of xs ys k] unfolding ab by simp_all
    have e: "Pllsq_fit solve p (Some xs) (Some ys) (Num v) = Inl e" if "solve a b = Inl e" for e
      using that \<open>k < length xs\<close> by (simp add: Pllsq_fit_def cc ab Let_def)
    have c: "\<exists>rms. Pllsq_fit solve p (Some xs) (Some ys) (Num v) =
                      Inr (\<lparr>poly_coef = c, poly_r = None, poly_rms = rms\<rparr>,
                           p\<lparr>p_c := c, p_n := k\<rparr>)" if "solve a b = Inr c" for c
      using that \<open>k < length xs\<close> by (simp add: Pllsq_fit_def cc ab Let_def)
    from ab d e c show ?thesis by blast
  qed
  from cc 1 2 3 4 show ?thesis unfolding k_def by blast
qed

theorem Pllsq_fit_guard_witness:
  "(1::real) \<le> 2
   \<and> coefficient_count (Num 2) = 3
   \<and> Pllsq_fit (\<lambda>a b. Inr b) Pllsq_new None (Some [1]) (Num 2) = Inr (Pllsq_empty, Pllsq_new)
   \<and> Pllsq_fit (\<lambda>a b. Inr b) Pllsq_new (Some [0, 1, 2]) (Some [1, 4, 9]) (Num 2)
        = Inr (Pllsq_empty, Pllsq_new)
   \<and> (\<exists>rms. Pllsq_fit (\<lambda>a b. Inr b) Pllsq_new (Some [0, 1, 2, 3]) (Some [1, 4, 9, 16]) (Num 2)
        = Inr (\<lparr>poly_coef = [Num 30, Num 70, Num 184], poly_r = None, poly_rms = rms\<rparr>,
               \<lparr>p_c = [Num 30, Num 70, Num 184], p_n = 3\<rparr>))"
proof -
  have r: "Math_round 2 = 2" by (simp add: Math_round_def)
  have n: "normal_equations [0, 1, 2, 3] [1, 4, 9, 16] 3 =
             ([[4, 6, 14], [6, 14, 36], [14, 36, 98]], [Num 30, Num 70, Num 184])"
    by (simp add: normal_equations_def Let_def y_at_def number_ops upt_rec [of 0] upt_rec [of 1]
        upt_rec [of 2] upt_rec [of 3] upt_rec [of 4] upt_rec [of 5] numeral_eq_Suc)
  note t = Pllsq_fit_guard [of 2 "\<lambda>a b. Inr b" Pllsq_new "Some [1]" None
      "[0, 1, 2, 3]" "[1, 4, 9, 16]", unfolded r]
  have e: "\<exists>rms. Pllsq_fit (\<lambda>a b. Inr b) Pllsq_new (Some [0, 1, 2, 3]) (Some [1, 4, 9, 16]) (Num 2)
        = Inr (\<lparr>poly_coef = [Num 30, Num 70, Num 184], poly_r = None, poly_rms = rms\<rparr>,
               \<lparr>p_c = [Num 30, Num 70, Num 184], p_n = 3\<rparr>)"
    using t by (simp add: n Pllsq_new_def)
  have c: "coefficient_count (Num 2) = 3" using t by simp
  have a: "Pllsq_fit (\<lambda>a b. Inr b) Pllsq_new None (Some [1]) (Num 2) = Inr (Pllsq_empty, Pllsq_new)"
    using t by simp
  have b: "Pllsq_fit (\<lambda>a b. Inr b) Pllsq_new (Some [0, 1, 2]) (Some [1, 4, 9]) (Num 2)
        = Inr (Pllsq_empty, Pllsq_new)"
    using Pllsq_fit_guard [of 2 "\<lambda>a b. Inr b" Pllsq_new None None "[0, 1, 2]" "[1, 4, 9]", unfolded r]
    by simp
  from a b c e show ?thesis by simp
qed


section \<open>Theorems: the parameters of the derived generators\<close>

lemma seed_loop_params:
  "d_u (seed_loop n d) = d_u d \<and> d_s (seed_loop n d) = d_s d"
  by (induction n arbitrary: d) (simp_all add: seed_body_def Let_def)

lemma uniform_params:
  "d_u (snd (uniform d start init)) = d_u d \<and> d_s (snd (uniform d start init)) = d_s d"
  by (simp add: uniform_def Let_def seed_loop_params split: option.split)

lemma gamma_params_truthy:
  assumes "truthy start"
  shows "d_a (gamma_params d start alpha beta) =
           (let a0 = (if isNaN alpha \<or> js_lt alpha (Num 0) \<or> js_eq alpha (Num 0) then 1
                      else (case alpha of Num v \<Rightarrow> v | NaN \<Rightarrow> 1))
            in if a0 < 1 then a0 + 1 else a0)"
    and "d_b (gamma_params d start alpha beta) =
           (if isNaN beta \<or> js_lt beta (Num (1 / 10000)) then 1 / 2
            else (case beta of Num v \<Rightarrow> v | NaN \<Rightarrow> 1 / 2))"
    and "1 \<le> d_a (gamma_params d start alpha beta)"
    and "1 / 10000 \<le> d_b (gamma_params d start alpha beta)"
  using assms
  by (auto simp: gamma_params_def Let_def isNaN_def js_lt_def js_eq_def split: number.splits)

subsection \<open>Claim C9\<close>

text \<open>
  C9 fails on the code for a seed that is \<open>0\<close> or \<open>NaN\<close>. The parameter block of
  \<open>gamma\<close> is guarded by \<open>if (start)\<close>, the seed, where \<open>normal\<close> and \<open>logistic\<close> test
  \<open>init\<close>; \<open>uniform\<close> accepts such a seed and coerces it to \<open>1\<close>. On a new instance,
  \<open>gamma(0, 0.5, 0.00001, true)\<close> leaves \<open>_a = 1\<close>, \<open>_b = 1\<close>, \<open>_a1 = 0\<close> and
  \<open>_a2 = 0\<close>: the shape is not shifted to \<open>1.5\<close> and the scale below the floor is not
  replaced. The same call with seed \<open>1\<close> stores \<open>1.5\<close> and \<open>0.5\<close>, and lemma
  \<open>gamma_params_truthy\<close> gives the claim's two rules for every truthy seed.
\<close>

theorem gamma_params_skipped_for_seed_0:
  "d_a (gamma_params Deviates_new (Num 0) (Num (1 / 2)) (Num (1 / 100000))) = 1
   \<and> d_b (gamma_params Deviates_new (Num 0) (Num (1 / 2)) (Num (1 / 100000))) = 1
   \<and> d_a1 (gamma_params Deviates_new (Num 0) (Num (1 / 2)) (Num (1 / 100000))) = 0
   \<and> d_a (gamma_params Deviates_new (Num 1) (Num (1 / 2)) (Num (1 / 100000))) = 3 / 2
   \<and> d_b (gamma_params Deviates_new (Num 1) (Num (1 / 2)) (Num (1 / 100000))) = 1 / 2"
  by (simp add: gamma_params_def truthy_def Deviates_new_def Let_def)

subsection \<open>Claim C10\<close>

text \<open>
  C10: on an initialising call of \<open>normal\<close> or \<open>logistic\<close> the stored mean is \<open>0\<close> when
  \<open>mu\<close> is \<open>NaN\<close> or below \<open>0\<close> and is \<open>mu\<close> otherwise, and the stored deviation is
  \<open>1\<close> when \<open>sig\<close> is \<open>NaN\<close> or below \<open>1\<close> and is \<open>sig\<close> otherwise. The constructor
  stores mean \<open>0\<close> and deviation \<open>1\<close>; the two parameter blocks, with any arguments and
  either value of \<open>init\<close>, keep the mean at \<open>0\<close> or above and the deviation at \<open>1\<close> or
  above, and \<open>uniform\<close> and the parameter block of \<open>gamma\<close> do not change them. So the
  mean and the deviation that scale a normal or logistic deviate are never negative and
  never below \<open>1\<close>.
\<close>

theorem normal_logistic_params_coerced:
  "(isNaN mu \<or> js_lt mu (Num 0) \<longrightarrow>
      d_u (normal_params d mu sig True) = 0 \<and> d_u (logistic_params d mu sig True) = 0)
   \<and> (mu = Num v \<and> 0 \<le> v \<longrightarrow>
      d_u (normal_params d mu sig True) = v \<and> d_u (logistic_params d mu sig True) = v)
   \<and> (isNaN sig \<or> js_lt sig (Num 1) \<longrightarrow>
      d_s (normal_params d mu sig True) = 1 \<and> d_s (logistic_params d mu sig True) = 1)
   \<and> (sig = Num w \<and> 1 \<le> w \<longrightarrow>
      d_s (normal_params d mu sig True) = w \<and> d_s (logistic_params d mu sig True) = w)
   \<and> 0 \<le> d_u Deviates_new \<and> 1 \<le> d_s Deviates_new
   \<and> (0 \<le> d_u d \<and> 1 \<le> d_s d \<longrightarrow>
        0 \<le> d_u (normal_params d mu sig init) \<and> 1 \<le> d_s (normal_params d mu sig init)
        \<and> 0 \<le> d_u (logistic_params d mu sig init) \<and> 1 \<le> d_s (logistic_params d mu sig init)
        \<and> 0 \<le> d_u (snd (uniform d start init)) \<and> 1 \<le> d_s (snd (uniform d start init))
        \<and> 0 \<le> d_u (gamma_params d start alpha beta)
        \<and> 1 \<le> d_s (gamma_params d start alpha beta))"
proof -
  have g: "d_u (gamma_params d start alpha beta) = d_u d"
    "d_s (gamma_params d start alpha beta) = d_s d"
    by (simp_all add: gamma_params_def Let_def)
  show ?thesis
    unfolding g uniform_params [THEN conjunct1] uniform_params [THEN conjunct2]
    by (auto simp: normal_params_def logistic_params_def isNaN_def js_lt_def Deviates_new_def
        split: number.splits)
qed

theorem normal_logistic_params_coerced_witness:
  "js_lt (Num (- 3)) (Num 0)
   \<and> d_u (normal_params Deviates_new (Num (- 3)) (Num (1 / 2)) True) = 0
   \<and> d_u (logistic_params Deviates_new (Num (- 3)) (Num (1 / 2)) True) = 0
   \<and> js_lt (Num (1 / 2)) (Num 1)
   \<and> d_s (normal_params Deviates_new (Num (- 3)) (Num (1 / 2)) True) = 1
   \<and> d_s (logistic_params Deviates_new (Num (- 3)) (Num (1 / 2)) True) = 1
   \<and> d_u (normal_params Deviates_new (Num 4) (Num 2) True) = 4
   \<and> d_s (normal_params Deviates_new (Num 4) (Num 2) True) = 2
   \<and> 0 \<le> d_u (logistic_params Deviates_new NaN NaN False)
   \<and> 1 \<le> d_s (logistic_params Deviates_new NaN NaN False)"
proof -
  have l: "js_lt (Num (- 3)) (Num 0)" "js_lt (Num (1 / 2)) (Num 1)"
    by (simp_all add: js_lt_def)
  note a = normal_logistic_params_coerced
    [of "Num (- 3)" Deviates_new "Num (1 / 2)" 0 0 False "Num 1" NaN NaN]
  note b = normal_logistic_params_coerced
    [of "Num 4" Deviates_new "Num 2" 4 2 False "Num 1" NaN NaN]
  note c = normal_logistic_params_coerced
    [of NaN Deviates_new NaN 0 0 False "Num 1" NaN NaN]
  from l a b c show ?thesis by simp
qed


section \<open>Further properties\<close>

subsection \<open>Sets drawn without replacement\<close>

lemma drawn_from_snoc:
  assumes "drawn_from data idxs tmp" and "k < length data" and "k \<notin> set idxs"
  shows "drawn_from data (idxs @ [k]) (tmp @ [Some (data ! k)])"
  using assms unfolding drawn_from_def by simp

lemma fill_set1D_distinct:
  assumes r: "fill_set1D data m d tmp sampled = Some res"
  shows "data \<noteq> [] \<longrightarrow> gen_ok d \<longrightarrow> m = Num (real k) \<longrightarrow> length tmp \<le> k \<longrightarrow>
         (\<exists>idxs. drawn_from data idxs tmp \<and> (\<forall>i\<in>set idxs. Some (int i) \<in> sampled)) \<longrightarrow>
         gen_ok (fst (snd res)) \<and> length (fst res) = k \<and> (\<exists>idxs. drawn_from data idxs (fst res))"
proof (rule fill_set1D.raw_induct
    [where P = "\<lambda>data m d tmp sampled res.
         data \<noteq> [] \<longrightarrow> gen_ok d \<longrightarrow> m = Num (real k) \<longrightarrow> length tmp \<le> k \<longrightarrow>
         (\<exists>idxs. drawn_from data idxs tmp \<and> (\<forall>i\<in>set idxs. Some (int i) \<in> sampled)) \<longrightarrow>
         gen_ok (fst (snd res)) \<and> length (fst res) = k \<and> (\<exists>idxs. drawn_from data idxs (fst res))",
      OF _ r], goal_cases)
  case (1 f data m d tmp sampled res)
  show ?case
  proof (intro impI)
    assume ne: "data \<noteq> []" and g: "gen_ok d" and m: "m = Num (real k)" and l: "length tmp \<le> k"
      and ex: "\<exists>idxs. drawn_from data idxs tmp \<and> (\<forall>i\<in>set idxs. Some (int i) \<in> sampled)"
    from ex obtain idxs where dr: "drawn_from data idxs tmp"
      and sm: "\<forall>i\<in>set idxs. Some (int i) \<in> sampled" by blast
    show "gen_ok (fst (snd res)) \<and> length (fst res) = k \<and> (\<exists>idxs. drawn_from data idxs (fst res))"
    proof (cases "length tmp < k")
      case False
      with 1(2) m have "res = (tmp, d, sampled)" by (simp add: js_lt_def)
      with False l g dr show ?thesis by auto
    next
      case True
      then have c: "js_lt (Num (real (length tmp))) m" by (simp add: m js_lt_def)
      have n: "0 < length data" using ne by simp
      from draw_step [OF g n, of "Num 1001"] obtain j where
        g': "gen_ok (snd (uniform d (Num 1001) False))" and
        j: "j < length data"
          "sample_index (length data) (fst (uniform d (Num 1001) False)) = Some (int j)"
        by blast
      show ?thesis
      proof (cases "Some (int j) \<in> sampled")
        case True
        with 1(2) c
        have "f data m (snd (uniform d (Num 1001) False)) tmp sampled = Some res"
          by (simp add: Let_def j)
        from 1(1) [OF this] ne g' m l ex show ?thesis by blast
      next
        case False
        with 1(2) c
        have e: "f data m (snd (uniform d (Num 1001) False)) (tmp @ [Some (data ! j)])
                (insert (Some (int j)) sampled) = Some res"
          by (simp add: Let_def j array_read_nat [OF j(1)])
        have nj: "j \<notin> set idxs" using False sm by auto
        have dr': "drawn_from data (idxs @ [j]) (tmp @ [Some (data ! j)])"
          using dr j(1) nj by (rule drawn_from_snoc)
        have sm': "\<forall>i\<in>set (idxs @ [j]). Some (int i) \<in> insert (Some (int j)) sampled"
          using sm by auto
        have l': "length (tmp @ [Some (data ! j)]) \<le> k" using True by simp
        from dr' sm' have ex': "\<exists>idxs. drawn_from data idxs (tmp @ [Some (data ! j)])
            \<and> (\<forall>i\<in>set idxs. Some (int i) \<in> insert (Some (int j)) sampled)" by blast
        from 1(1) [OF e] ne g' m l' ex' show ?thesis by blast
      qed
    qed
  qed
qed

lemma fill_sets1D_distinct:
  assumes "data \<noteq> []"
  shows "fill_sets1D data (Num (real k)) c d sampled = Some (out, d') \<Longrightarrow> gen_ok d \<Longrightarrow>
         (\<forall>s\<in>set out. length s = k \<and> (\<exists>idxs. drawn_from data idxs s))"
proof (induction c arbitrary: d sampled out d')
  case 0
  then show ?case by simp
next
  case (Suc c)
  from Suc.prems(1) obtain tmp d1 sampled1 rest where
    f: "fill_set1D data (Num (real k)) d [] (clear_sampled sampled) = Some (tmp, d1, sampled1)"
    and r: "fill_sets1D data (Num (real k)) c d1 sampled1 = Some (rest, d')"
    and o: "out = tmp # rest"
    by (auto split: option.splits)
  have e: "\<exists>idxs. drawn_from data idxs [] \<and> (\<forall>i\<in>set idxs. Some (int i) \<in> clear_sampled sampled)"
    by (intro exI [of _ "[]"]) (simp add: drawn_from_def)
  from fill_set1D_distinct [OF f, of k] assms Suc.prems(2) e
  have g: "gen_ok d1" and t: "length tmp = k" "\<exists>idxs. drawn_from data idxs tmp" by auto
  from Suc.IH [OF r g] t o show ?case by simp
qed

lemma sampleSize_1D_cases:
  "\<exists>k. sampleSize_1D n m = Num (real k) \<and> k \<le> n
       \<and> ((m = None \<or> m = Some NaN \<or> (\<exists>v. m = Some (Num v) \<and> (v < 1 \<or> real n < v)))
            \<longrightarrow> k = n div 2)
       \<and> (\<forall>v. m = Some (Num v) \<and> 1 \<le> v \<and> v \<le> real n \<longrightarrow> int k = Math_round v)"
proof (cases m)
  case None
  then show ?thesis by (simp add: sampleSize_1D_def)
next
  case (Some a)
  show ?thesis
  proof (cases a)
    case NaN
    with Some show ?thesis by (simp add: sampleSize_1D_def)
  next
    case (Num v)
    show ?thesis
    proof (cases "v < 1 \<or> real n < v")
      case True
      with Some Num show ?thesis by (auto simp: sampleSize_1D_def)
    next
      case False
      then have v: "1 \<le> v" "v \<le> real n" by auto
      have lo: "1 \<le> Math_round v" unfolding Math_round_def using v(1) by (simp add: le_floor_iff)
      have "v + 1 / 2 < real n + 1" using v(2) by simp
      then have "\<lfloor>v + 1 / 2\<rfloor> < int n + 1"
        using floor_less_iff [of "v + 1 / 2" "int n + 1"] by simp
      then have hi: "Math_round v \<le> int n" unfolding Math_round_def by simp
      define k where "k = nat (Math_round v)"
      have ik: "int k = Math_round v" unfolding k_def using lo by simp
      have rk: "real k = of_int (Math_round v)" unfolding ik [symmetric] by simp
      have 1: "sampleSize_1D n m = Num (real k)"
        using Some Num False by (simp add: sampleSize_1D_def rk)
      have 2: "k \<le> n" unfolding k_def using hi by simp
      have 3: "\<not> (m = None \<or> m = Some NaN
                  \<or> (\<exists>v. m = Some (Num v) \<and> (v < 1 \<or> real n < v)))"
        using Some Num False by simp
      have 4: "\<forall>w. m = Some (Num w) \<and> 1 \<le> w \<and> w \<le> real n \<longrightarrow> int k = Math_round w"
        using Some Num ik by simp
      from 1 2 3 4 show ?thesis by blast
    qed
  qed
qed

text \<open>
  For a non-empty dataset, the sample size of \<open>get1DSamplesWithoutReplacement\<close> is a
  whole number \<open>k \<le> n\<close>, equal to \<open>floor(n / 2)\<close> when \<open>m\<close> is omitted, \<open>NaN\<close>, below
  \<open>1\<close> or above \<open>n\<close>; every set the operation returns has exactly \<open>k\<close> elements, read
  at pairwise distinct indices of the data.
\<close>

theorem subsample1D_size_and_distinct:
  assumes "data \<noteq> []"
    and "get1DSamplesWithoutReplacement d (Some data) m numSets = Some (out, d')"
  shows "\<exists>k. sampleSize_1D (length data) m = Num (real k) \<and> k \<le> length data
          \<and> ((m = None \<or> m = Some NaN
               \<or> (\<exists>v. m = Some (Num v) \<and> (v < 1 \<or> real (length data) < v)))
              \<longrightarrow> k = length data div 2)
          \<and> (\<forall>s\<in>set out. length s = k \<and> (\<exists>idxs. drawn_from data idxs s))"
proof -
  from sampleSize_1D_cases [of "length data" m] obtain k where
    k: "sampleSize_1D (length data) m = Num (real k)" "k \<le> length data"
      "(m = None \<or> m = Some NaN
               \<or> (\<exists>v. m = Some (Num v) \<and> (v < 1 \<or> real (length data) < v)))
              \<longrightarrow> k = length data div 2"
    by blast
  from assms have "fill_sets1D data (Num (real k))
               (loop_count (numSets_default (length data) numSets))
               (snd (uniform d (Num 1001) True)) {} = Some (out, d')"
    unfolding get1DSamplesWithoutReplacement_def
    by (simp add: case_prod_unfold Let_def k(1))
  from fill_sets1D_distinct [OF assms(1) this seed_1001_ok]
  have "\<forall>s\<in>set out. length s = k \<and> (\<exists>idxs. drawn_from data idxs s)" .
  with k show ?thesis by blast
qed

theorem subsample1D_size_and_distinct_witness:
  "[1, 2, 3, 4] \<noteq> ([] :: real list)
   \<and> (\<exists>d'. get1DSamplesWithoutReplacement Deviates_new (Some [1, 2, 3, 4]) (Some NaN)
              (Some (Num 1)) = Some ([[Some 3, Some 2]], d'))
   \<and> (\<exists>k. sampleSize_1D (length [1, 2, 3, 4 :: real]) (Some NaN) = Num (real k) \<and> k = 2
          \<and> list_all (\<lambda>s. length s = k \<and> (\<exists>idxs. drawn_from [1, 2, 3, 4] idxs s))
               [[Some 3, Some 2]])"
proof -
  have "map_option fst (get1DSamplesWithoutReplacement Deviates_new
       (Some [1, 2, 3, 4]) (Some NaN) (Some (Num 1))) = Some [[Some 3, Some 2]]"
    by (simp add: get1DSamplesWithoutReplacement_def sampleSize_1D_def numSets_default_def
        loop_count_def clear_sampled_def js_lt_def fill_set1D.simps
        case_prod_unfold uniform_continue seed_1001_state eval_consts)
  then obtain d' where e: "get1DSamplesWithoutReplacement Deviates_new
       (Some [1, 2, 3, 4]) (Some NaN) (Some (Num 1)) = Some ([[Some 3, Some 2]], d')"
    by auto
  have ne: "[1, 2, 3, 4] \<noteq> ([] :: real list)" by simp
  from subsample1D_size_and_distinct [OF ne e] e show ?thesis
    by (auto simp: list_all_iff)
qed

lemma fill_set2D_distinct:
  assumes r: "fill_set2D xs ys m d out sampled = Some res"
  shows "xs \<noteq> [] \<longrightarrow> length ys = length xs \<longrightarrow> gen_ok d \<longrightarrow> m = Num (real k) \<longrightarrow>
         length (sample_x out) \<le> k \<longrightarrow>
         (\<exists>idxs. drawn_from2D xs ys idxs out \<and> (\<forall>i\<in>set idxs. Some (int i) \<in> sampled)) \<longrightarrow>
         gen_ok (fst (snd res)) \<and> length (sample_x (fst res)) = k
         \<and> (\<exists>idxs. drawn_from2D xs ys idxs (fst res))"
proof (rule fill_set2D.raw_induct
    [where P = "\<lambda>xs ys m d out sampled res.
         xs \<noteq> [] \<longrightarrow> length ys = length xs \<longrightarrow> gen_ok d \<longrightarrow> m = Num (real k) \<longrightarrow>
         length (sample_x out) \<le> k \<longrightarrow>
         (\<exists>idxs. drawn_from2D xs ys idxs out \<and> (\<forall>i\<in>set idxs. Some (int i) \<in> sampled)) \<longrightarrow>
         gen_ok (fst (snd res)) \<and> length (sample_x (fst res)) = k
         \<and> (\<exists>idxs. drawn_from2D xs ys idxs (fst res))",
      OF _ r], goal_cases)
  case (1 f xs ys m d out sampled res)
  show ?case
  proof (intro impI)
    assume ne: "xs \<noteq> []" and ly: "length ys = length xs" and g: "gen_ok d"
      and m: "m = Num (real k)" and l: "length (sample_x out) \<le> k"
      and ex: "\<exists>idxs. drawn_from2D xs ys idxs out \<and> (\<forall>i\<in>set idxs. Some (int i) \<in> sampled)"
    from ex obtain idxs where dr: "drawn_from2D xs ys idxs out"
      and sm: "\<forall>i\<in>set idxs. Some (int i) \<in> sampled" by blast
    show "gen_ok (fst (snd res)) \<and> length (sample_x (fst res)) = k
          \<and> (\<exists>idxs. drawn_from2D xs ys idxs (fst res))"
    proof (cases "length (sample_x out) < k")
      case False
      with 1(2) m have "res = (out, d, sampled)" by (simp add: js_lt_def)
      with False l g dr show ?thesis by auto
    next
      case True
      then have c: "js_lt (Num (real (length (sample_x out)))) m" by (simp add: m js_lt_def)
      have n: "0 < length xs" using ne by simp
      from draw_step [OF g n, of "Num 1001"] obtain j where
        g': "gen_ok (snd (uniform d (Num 1001) False))" and
        j: "j < length xs"
          "sample_index (length xs) (fst (uniform d (Num 1001) False)) = Some (int j)"
        by blast
      have jy: "j < length ys" using j(1) ly by simp
      let ?out = "out\<lparr>sample_x := sample_x out @ [Some (xs ! j)],
                       sample_y := sample_y out @ [Some (ys ! j)]\<rparr>"
      show ?thesis
      proof (cases "Some (int j) \<in> sampled")
        case True
        with 1(2) c
        have "f xs ys m (snd (uniform d (Num 1001) False)) out sampled = Some res"
          by (simp add: Let_def j)
        from 1(1) [OF this] ne ly g' m l ex show ?thesis by blast
      next
        case False
        with 1(2) c
        have e: "f xs ys m (snd (uniform d (Num 1001) False)) ?out
                (insert (Some (int j)) sampled) = Some res"
          by (simp add: Let_def j array_read_nat [OF j(1)] array_read_nat [OF jy])
        have nj: "j \<notin> set idxs" using False sm by auto
        have dr': "drawn_from2D xs ys (idxs @ [j]) ?out"
          using dr j(1) jy nj drawn_from_snoc [of xs idxs "sample_x out" j]
            drawn_from_snoc [of ys idxs "sample_y out" j]
          unfolding drawn_from2D_def by simp
        have sm': "\<forall>i\<in>set (idxs @ [j]). Some (int i) \<in> insert (Some (int j)) sampled"
          using sm by auto
        have l': "length (sample_x ?out) \<le> k" using True by simp
        from dr' sm' have ex': "\<exists>idxs. drawn_from2D xs ys idxs ?out
            \<and> (\<forall>i\<in>set idxs. Some (int i) \<in> insert (Some (int j)) sampled)" by blast
        from 1(1) [OF e] ne ly g' m l' ex' show ?thesis by blast
      qed
    qed
  qed
qed

lemma fill_sets2D_distinct:
  assumes "x \<noteq> []" and "length y = length x"
  shows "fill_sets2D x y (Num (real k)) c d sampled = Some (out, d') \<Longrightarrow> gen_ok d \<Longrightarrow>
         (\<forall>s\<in>set out. length (sample_x s) = k \<and> (\<exists>idxs. drawn_from2D x y idxs s))"
proof (induction c arbitrary: d sampled out d')
  case 0
  then show ?case by simp
next
  case (Suc c)
  from Suc.prems(1) obtain s d1 sampled1 rest where
    f: "fill_set2D x y (Num (real k)) d \<lparr>sample_x = [], sample_y = []\<rparr> (clear_sampled sampled)
          = Some (s, d1, sampled1)"
    and r: "fill_sets2D x y (Num (real k)) c d1 sampled1 = Some (rest, d')"
    and o: "out = s # rest"
    by (auto split: option.splits)
  have e: "\<exists>idxs. drawn_from2D x y idxs \<lparr>sample_x = [], sample_y = []\<rparr>
             \<and> (\<forall>i\<in>set idxs. Some (int i) \<in> clear_sampled sampled)"
    by (intro exI [of _ "[]"]) (simp add: drawn_from2D_def drawn_from_def)
  from fill_set2D_distinct [OF f, of k] assms Suc.prems(2) e
  have g: "gen_ok d1" and t: "length (sample_x s) = k" "\<exists>idxs. drawn_from2D x y idxs s"
    by auto
  from Suc.IH [OF r g] t o show ?case by simp
qed

lemma sampleSize_2D_cases:
  "(m = None \<or> (\<exists>v. m = Some (Num v) \<and> (v < 1 \<or> real n < v))
      \<longrightarrow> sampleSize_2D n m = Num (real (n div 2)))
   \<and> (1 \<le> k \<and> k \<le> n \<longrightarrow> sampleSize_2D n (Some (Num (real k))) = Num (real k))"
  by (auto simp: sampleSize_2D_def)

text \<open>
  In two dimensions, when the sample size resolves to a whole number \<open>k\<close> (that is,
  when \<open>m\<close> is omitted, below \<open>1\<close> or above \<open>n\<close>, which gives \<open>floor(n / 2)\<close>, or is
  itself a whole number from \<open>1\<close> to \<open>n\<close>: lemma \<open>sampleSize_2D_cases\<close>), every set
  that \<open>get2DSamplesWithoutReplacement\<close> returns has exactly \<open>k\<close> pairs, read at
  pairwise distinct indices of the data.
\<close>

theorem subsample2D_size_and_distinct:
  assumes "x \<noteq> []" and "length y = length x"
    and "sampleSize_2D (length x) m = Num (real k)"
    and "get2DSamplesWithoutReplacement d (Some x) (Some y) m numSets = Some (out, d')"
  shows "\<forall>s\<in>set out. length (sample_x s) = k \<and> length (sample_y s) = k
            \<and> (\<exists>idxs. drawn_from2D x y idxs s)"
proof -
  from assms have "fill_sets2D x y (Num (real k))
               (loop_count (numSets_default (length x) numSets))
               (snd (uniform d (Num 1001) True)) {} = Some (out, d')"
    unfolding get2DSamplesWithoutReplacement_def
    by (simp add: case_prod_unfold Let_def)
  from fill_sets2D_distinct [OF assms(1,2) this seed_1001_ok]
  show ?thesis by (auto simp: drawn_from2D_def drawn_from_def)
qed

theorem subsample2D_size_and_distinct_witness:
  "[10, 20] \<noteq> ([] :: real list) \<and> length [30, 40 :: real] = length [10, 20 :: real]
   \<and> sampleSize_2D (length [10, 20 :: real]) (Some (Num 1)) = Num (real 1)
   \<and> (\<exists>d'. get2DSamplesWithoutReplacement Deviates_new (Some [10, 20]) (Some [30, 40])
              (Some (Num 1)) (Some (Num 1))
            = Some ([\<lparr>sample_x = [Some 20], sample_y = [Some 40]\<rparr>], d'))
   \<and> list_all (\<lambda>s. length (sample_x s) = 1 \<and> length (sample_y s) = 1
                   \<and> (\<exists>idxs. drawn_from2D [10, 20] [30, 40] idxs s))
        [\<lparr>sample_x = [Some 20], sample_y = [Some 40]\<rparr>]"
proof -
  have "map_option fst (get2DSamplesWithoutReplacement Deviates_new (Some [10, 20])
             (Some [30, 40]) (Some (Num 1)) (Some (Num 1)))
           = Some [\<lparr>sample_x = [Some 20], sample_y = [Some 40]\<rparr>]"
    by (simp add: get2DSamplesWithoutReplacement_def sampleSize_2D_def numSets_default_def
        loop_count_def clear_sampled_def js_lt_def fill_set2D.simps
        case_prod_unfold uniform_continue seed_1001_state eval_consts)
  then obtain d' where e: "get2DSamplesWithoutReplacement Deviates_new (Some [10, 20])
             (Some [30, 40]) (Some (Num 1)) (Some (Num 1))
           = Some ([\<lparr>sample_x = [Some 20], sample_y = [Some 40]\<rparr>], d')"
    by auto
  have ne: "[10, 20] \<noteq> ([] :: real list)" by simp
  have l: "length [30, 40 :: real] = length [10, 20 :: real]" by simp
  have k: "sampleSize_2D (length [10, 20 :: real]) (Some (Num 1)) = Num (real 1)"
    by (simp add: sampleSize_2D_def)
  from subsample2D_size_and_distinct [OF ne l k e] e k show ?thesis
    by (auto simp: list_all_iff)
qed

subsection \<open>The linear fit on arrays that are not null\<close>

text \<open>
  For arrays that are not null, \<open>TSMT$LLSQ.fit\<close> returns the zero result when \<open>x\<close>
  has fewer than three points (whatever \<open>y\<close> is, also null) and when the lengths of
  \<open>x\<close> and \<open>y\<close> differ; no exception is raised.
\<close>

theorem LLSQ_fit_zero_result:
  "(length xs < 3 \<longrightarrow> LLSQ_fit (Some xs) y = Inr LLSQ_zero)
   \<and> (length ys \<noteq> length xs \<longrightarrow> LLSQ_fit (Some xs) (Some ys) = Inr LLSQ_zero)"
  by (simp add: LLSQ_fit_degenerate)

theorem LLSQ_fit_zero_result_witness:
  "length [1, 2 :: real] < 3 \<and> LLSQ_fit (Some [1, 2]) None = Inr LLSQ_zero
   \<and> length [1, 2 :: real] \<noteq> length [1, 2, 3, 4 :: real]
   \<and> LLSQ_fit (Some [1, 2, 3, 4]) (Some [1, 2]) = Inr LLSQ_zero"
  using LLSQ_fit_zero_result [of "[1, 2]" None "[1, 2]"]
    LLSQ_fit_zero_result [of "[1, 2, 3, 4]" None "[1, 2]"]
  by simp

subsection \<open>The parameters of gamma for a truthy seed\<close>

text \<open>
  When the seed is neither \<open>0\<close> nor \<open>NaN\<close>, \<open>gamma\<close> stores the shape \<open>alpha\<close>
  (\<open>1\<close> when \<open>alpha\<close> is \<open>NaN\<close> or not positive), raised by \<open>1\<close> when it is below \<open>1\<close>,
  and the scale \<open>beta\<close>, replaced by \<open>0.5\<close> when it is \<open>NaN\<close> or below \<open>0.0001\<close>; the
  stored shape is at least \<open>1\<close> and the stored scale at least \<open>0.0001\<close>.
\<close>

theorem gamma_params_for_truthy_seed:
  assumes "truthy start"
  shows "d_a (gamma_params d start alpha beta) =
           (let a0 = (if isNaN alpha \<or> js_lt alpha (Num 0) \<or> js_eq alpha (Num 0) then 1
                      else (case alpha of Num v \<Rightarrow> v | NaN \<Rightarrow> 1))
            in if a0 < 1 then a0 + 1 else a0)
       \<and> d_b (gamma_params d start alpha beta) =
           (if isNaN beta \<or> js_lt beta (Num (1 / 10000)) then 1 / 2
            else (case beta of Num v \<Rightarrow> v | NaN \<Rightarrow> 1 / 2))
       \<and> 1 \<le> d_a (gamma_params d start alpha beta)
       \<and> 1 / 10000 \<le> d_b (gamma_params d start alpha beta)"
  using gamma_params_truthy [OF assms] by simp

theorem gamma_params_for_truthy_seed_witness:
  "truthy (Num 7)
   \<and> d_a (gamma_params Deviates_new (Num 7) (Num (1 / 2)) (Num (1 / 100000))) = 3 / 2
   \<and> d_b (gamma_params Deviates_new (Num 7) (Num (1 / 2)) (Num (1 / 100000))) = 1 / 2
   \<and> d_a (gamma_params Deviates_new (Num 7) NaN (Num 3)) = 1
   \<and> d_b (gamma_params Deviates_new (Num 7) NaN (Num 3)) = 3"
proof -
  have t: "truthy (Num 7)" by (simp add: truthy_def)
  from gamma_params_for_truthy_seed [OF t, of Deviates_new "Num (1 / 2)" "Num (1 / 100000)"]
    gamma_params_for_truthy_seed [OF t, of Deviates_new NaN "Num 3"] t
  show ?thesis by (simp add: isNaN_def js_lt_def js_eq_def)
qed

subsection \<open>A continuing call of uniform\<close>

text \<open>
  Whatever the state and the seed argument, a call \<open>uniform(s, false)\<close> advances the
  generator by one congruential step, returns the content of slot \<open>0\<close> of the table
  scaled by \<open>AM\<close> and clamped at \<open>RNMX\<close> (\<open>NaN\<close> when the table was never seeded), and
  stores the new state in slot \<open>0\<close>; no other slot is read or written.
\<close>

theorem uniform_false_uses_slot_0:
  "uniform d s False =
     (case d_iv d 0 of
        None \<Rightarrow> NaN
      | Some v \<Rightarrow> Num (if AM * v > RNMX then RNMX else AM * v),
      d\<lparr>d_idum := advance (d_idum d), d_iv := (d_iv d)(0 \<mapsto> advance (d_idum d))\<rparr>)"
  by (rule uniform_continue)

end
